theory Spec2Isabelle
  imports Complex_Main
begin

section \<open>Exceptions\<close>

text \<open>
  The exception classes that the scrapers raise, catch or let through. \<open>ParseError\<close> is
  declared in \<^verbatim>\<open>scraper.py\<close> as a subclass of \<open>ValueError\<close>; the six transport classes
  are the default of \<^verbatim>\<open>retry_exceptions\<close>. \<open>OtherError n\<close> stands for any further
  subclass of \<open>Exception\<close>.
\<close>

datatype exc_class =
    TimeoutError
  | ClientConnectorError
  | ServerDisconnectedError
  | ClientOSError
  | ClientPayloadError
  | ClientResponseError
  | ParseError
  | ValueError
  | TypeError
  | FileNotFoundError
  | Exception
  | OtherError nat

text \<open>An exception object: its class, the HTTP status it carries (if any) and its message.\<close>

datatype exc = Exc (exc_cls: exc_class) (exc_status: "int option") (exc_message: string)

text \<open>
  \<^verbatim>\<open>isinstance\<close> as an \<^verbatim>\<open>except\<close> clause uses it: a class matches itself and its base
  classes. Every modelled class derives from \<open>Exception\<close>, \<open>ParseError\<close> from
  \<open>ValueError\<close>, and \<open>ClientConnectorError\<close> from \<open>ClientOSError\<close>.
\<close>

definition issubclass :: "exc_class \<Rightarrow> exc_class \<Rightarrow> bool" where
  "issubclass c d \<longleftrightarrow>
     c = d \<or> d = Exception \<or> (c = ParseError \<and> d = ValueError)
     \<or> (c = ClientConnectorError \<and> d = ClientOSError)"

definition caught_by :: "exc_class list \<Rightarrow> exc \<Rightarrow> bool" where
  "caught_by classes e \<longleftrightarrow> (\<exists>d \<in> set classes. issubclass (exc_cls e) d)"

section \<open>helpers.py: batch_generator\<close>


section \<open>data.py: requests and responses\<close>

type_synonym bytes = string

text \<open>
  Modelled from the spec: the \<^verbatim>\<open>Request\<close> and \<^verbatim>\<open>Response\<close> classes of
  \<^verbatim>\<open>data.py\<close>, which is not among the sources. A request has a target, a method
  (\<open>req_method\<close>, the \<^verbatim>\<open>method\<close> attribute) and a text encoding; a response has its raw bytes, the encoding used to decode them, an
  optional content type and an optional status code.
\<close>

record request =
  path :: string
  req_method :: string
  encoding :: string

record response =
  content :: bytes
  text_encoding :: string
  content_type :: "string option"
  status :: "int option"

section \<open>The world a scraper runs in\<close>

text \<open>
  A session is either one the caller passed to the constructor or one that the engine
  created itself; objects created by the engine are new, hence distinct from every
  supplied one.
\<close>

datatype session_id = Supplied nat | Created nat

text \<open>
  \<^verbatim>\<open>self.semaphore\<close> holds an \<^verbatim>\<open>asyncio.Semaphore\<close> (with its capacity) or, after a
  subclass has taken it, a \<^verbatim>\<open>nullcontext()\<close>.
\<close>

datatype gate = Semaphore nat | Nullcontext

text \<open>What a call does to the outside, in the order in which it happens.\<close>

datatype event =
    Acquire
  | Release
  | Session_open session_id
  | Send session_id request
  | Session_close session_id
  | Sleep real
  | Read_file string
  | Call_get_doc

record world =
  now :: real
  closed :: "session_id set"
  fresh :: nat
  files :: "string \<rightharpoonup> bytes"

text \<open>
  One pass through \<^verbatim>\<open>session.request(**req.args)\<close>: how long it takes and what comes
  back, either an exception of the transport or a response with its status, reason and
  content type, whose body \<^verbatim>\<open>response.read()\<close> delivers or fails to deliver.
\<close>

datatype net_outcome =
    Net_raise exc
  | Net_response int string "string option" "exc + bytes"

type_synonym net_attempt = "real \<times> net_outcome"

text \<open>
  The result of a call that may still be running when the modelled behaviour of the
  network ends: \<open>None\<close> then, else the exception raised or the value returned.
\<close>

type_synonym 'a outcome = "(exc + 'a) option \<times> event list \<times> world"

section \<open>scraper.py: the Scraper class\<close>

record scraper =
  semaphore :: gate
  session :: "session_id option"
  retry_exceptions :: "exc_class list"
  retry_statuses :: "int list"
  stop_after_waiting :: real
  max_wait :: real
  wait_base :: real
  max_extra_jitter :: real

definition default_retry_exceptions :: "exc_class list" where
  "default_retry_exceptions =
     [TimeoutError, ClientConnectorError, ServerDisconnectedError, ClientOSError,
      ClientPayloadError, ClientResponseError]"

definition default_retry_statuses :: "int list" where
  "default_retry_statuses = [429]"

text \<open>
  \<^verbatim>\<open>Scraper.__init__\<close>, for the attributes that the fetch and retry code reads. The
  waiting parameters are not constructor arguments: they are set to fixed values, which
  a subclass may change afterwards.
\<close>

definition Scraper_init ::
  "gate option \<Rightarrow> session_id option \<Rightarrow> exc_class list \<Rightarrow> int list \<Rightarrow> scraper" where
  "Scraper_init sem sess rexc rstat =
     \<lparr> semaphore = (case sem of None \<Rightarrow> Semaphore 30 | Some g \<Rightarrow> g),
       session = sess,
       retry_exceptions = rexc,
       retry_statuses = rstat,
       stop_after_waiting = 15 * 60,
       max_wait = 2.5 * 60,
       wait_base = 1.25,
       max_extra_jitter = 0.05 \<rparr>"

subsection \<open>Exponential backoff with jitter\<close>

text \<open>
  \<^verbatim>\<open>random.uniform(a, b)\<close> is \<^verbatim>\<open>a + (b - a) * random()\<close>; the draw \<open>u\<close> of
  \<^verbatim>\<open>random()\<close> is the injected source of randomness.
\<close>

definition uniform :: "real \<Rightarrow> real \<Rightarrow> real \<Rightarrow> real" where
  "uniform a b u = a + (b - a) * u"

text \<open>
  The wait before the next attempt, as \<^verbatim>\<open>get\<close> and \<^verbatim>\<open>get_doc\<close> both compute it
  (the same nine lines in each), from the attempt counter after its increment and the two
  draws the computation consumes. Python's floats are idealised as reals.
  \<^verbatim>\<open>
  wait = self.wait_base ** attempt / 2
  jitter = random.uniform(0, wait)
  wait += jitter
  wait = min(wait, self.max_wait)
  wait += random.uniform(0, self.max_extra_jitter)
  \<close>
\<close>

definition raw_wait :: "scraper \<Rightarrow> nat \<Rightarrow> real" where
  "raw_wait sc attempt = wait_base sc ^ attempt / 2"

definition jitter :: "scraper \<Rightarrow> nat \<Rightarrow> real \<Rightarrow> real" where
  "jitter sc attempt u = uniform 0 (raw_wait sc attempt) u"

definition extra_jitter :: "scraper \<Rightarrow> real \<Rightarrow> real" where
  "extra_jitter sc u = uniform 0 (max_extra_jitter sc) u"

definition backoff :: "scraper \<Rightarrow> nat \<Rightarrow> real \<times> real \<Rightarrow> real" where
  "backoff sc attempt us =
     (let wait = raw_wait sc attempt;
          wait = wait + jitter sc attempt (fst us);
          wait = min wait (max_wait sc)
      in wait + extra_jitter sc (snd us))"


text \<open>The sum of the first \<open>k\<close> waits of a retry loop: its \<^verbatim>\<open>elapsed\<close> after \<open>k\<close> sleeps.\<close>

fun elapsed_after :: "scraper \<Rightarrow> (nat \<Rightarrow> real \<times> real) \<Rightarrow> nat \<Rightarrow> real" where
  "elapsed_after sc draws 0 = 0"
| "elapsed_after sc draws (Suc k) = elapsed_after sc draws k + backoff sc (Suc k) (draws (Suc k))"

subsection \<open>get\<close>

text \<open>Entering and leaving \<^verbatim>\<open>async with gate\<close>.\<close>

definition enter_gate :: "gate \<Rightarrow> event list" where
  "enter_gate g = (case g of Semaphore _ \<Rightarrow> [Acquire] | Nullcontext \<Rightarrow> [])"

definition exit_gate :: "gate \<Rightarrow> event list" where
  "exit_gate g = (case g of Semaphore _ \<Rightarrow> [Release] | Nullcontext \<Rightarrow> [])"

text \<open>
  The body of \<^verbatim>\<open>async with session.request(**req.args) as response\<close>: a status in
  \<^verbatim>\<open>self.retry_statuses\<close> raises a \<open>ClientResponseError\<close> made from the response,
  otherwise the body is read and wrapped.
\<close>

definition issue_request :: "scraper \<Rightarrow> request \<Rightarrow> net_outcome \<Rightarrow> exc + response" where
  "issue_request sc req out =
     (case out of
        Net_raise e \<Rightarrow> Inl e
      | Net_response st reason ctype body \<Rightarrow>
          if st \<in> set (retry_statuses sc)
          then Inl (Exc ClientResponseError (Some st) reason)
          else (case body of
                  Inl e \<Rightarrow> Inl e
                | Inr bs \<Rightarrow> Inr \<lparr> content = bs, text_encoding = encoding req,
                                  content_type = ctype, status = Some st \<rparr>))"

text \<open>
  \<^verbatim>\<open>self.session and not self.session.closed\<close>: the session to use without owning it,
  if there is one.
\<close>

definition usable_session :: "scraper \<Rightarrow> world \<Rightarrow> session_id option" where
  "usable_session sc w =
     (case session sc of
        None \<Rightarrow> None
      | Some s \<Rightarrow> if s \<in> closed w then None else Some s)"

text \<open>
  One pass through the \<^verbatim>\<open>try\<close> block of \<^verbatim>\<open>get\<close>: the semaphore is entered, then
  either a \<^verbatim>\<open>nullcontext\<close> (the caller's session is used) or a new
  \<^verbatim>\<open>aiohttp.ClientSession\<close>, whose context closes it on the way out, whether the body
  returned or raised.
\<close>

definition request_attempt ::
  "scraper \<Rightarrow> request \<Rightarrow> net_attempt \<Rightarrow> world \<Rightarrow> (exc + response) \<times> event list \<times> world" where
  "request_attempt sc req a w =
     (case usable_session sc w of
        Some s \<Rightarrow>
          (issue_request sc req (snd a),
           enter_gate (semaphore sc) @ [Send s req] @ exit_gate (semaphore sc),
           w\<lparr>now := now w + fst a\<rparr>)
      | None \<Rightarrow>
          (let s = Created (fresh w) in
           (issue_request sc req (snd a),
            enter_gate (semaphore sc) @ [Session_open s, Send s req, Session_close s]
              @ exit_gate (semaphore sc),
            w\<lparr>now := now w + fst a, closed := insert s (closed w), fresh := Suc (fresh w)\<rparr>)))"

text \<open>
  The \<^verbatim>\<open>while True\<close> loop of \<^verbatim>\<open>get\<close>. The list holds what the network does at each
  successive attempt; when it is used up the call is still running. \<open>draws n\<close> are the
  two random draws of the \<open>n\<close>-th backoff.
\<close>

fun get_loop ::
  "scraper \<Rightarrow> request \<Rightarrow> net_attempt list \<Rightarrow> (nat \<Rightarrow> real \<times> real) \<Rightarrow> nat \<Rightarrow> real \<Rightarrow> world
     \<Rightarrow> response outcome" where
  "get_loop sc req [] draws attempt elapsed w = (None, [], w)"
| "get_loop sc req (a # rest) draws attempt elapsed w =
     (case request_attempt sc req a w of
        (Inr resp, evs, w') \<Rightarrow> (Some (Inr resp), evs, w')
      | (Inl e, evs, w') \<Rightarrow>
          if caught_by (retry_exceptions sc) e then
            if elapsed > stop_after_waiting sc then (Some (Inl e), evs, w')
            else
              (let attempt' = attempt + 1;
                   wait = backoff sc attempt' (draws attempt')
               in case get_loop sc req rest draws attempt' (elapsed + wait)
                         (w'\<lparr>now := now w' + wait\<rparr>) of
                    (r, evs', w'') \<Rightarrow> (r, evs @ [Sleep wait] @ evs', w''))
          else (Some (Inl e), evs, w'))"

text \<open>
  \<^verbatim>\<open>await x\<close> needs an awaitable: the result of a coroutine function is one, a plain
  value such as a \<^verbatim>\<open>bytes\<close> object is not, and awaiting it raises \<open>TypeError\<close>.
\<close>

datatype 'a operand = Plain 'a | Awaitable 'a

definition await :: "'a operand \<Rightarrow> exc + 'a" where
  "await x =
     (case x of
        Awaitable v \<Rightarrow> Inr v
      | Plain v \<Rightarrow> Inl (Exc TypeError None ''object cannot be used in await expression''))"

text \<open>
  The built-in \<^verbatim>\<open>open(path, 'rb')\<close> followed by \<^verbatim>\<open>reader.read()\<close>: a missing file
  raises, an existing one gives its bytes as a plain value.
\<close>

definition read_binary :: "world \<Rightarrow> string \<Rightarrow> exc + bytes operand" where
  "read_binary w p =
     (case files w p of
        None \<Rightarrow> Inl (Exc FileNotFoundError None p)
      | Some bs \<Rightarrow> Inr (Plain bs))"

text \<open>
  The branch of \<^verbatim>\<open>get\<close> for \<^verbatim>\<open>req.method == 'open'\<close>:
  \<^verbatim>\<open>
  with open(req.path, 'rb') as reader:
      return Response(await reader.read(), encoding=req.encoding)
  \<close>
\<close>

definition get_open :: "request \<Rightarrow> world \<Rightarrow> response outcome" where
  "get_open req w =
     (case read_binary w (path req) of
        Inl e \<Rightarrow> (Some (Inl e), [], w)
      | Inr data \<Rightarrow>
          (case await data of
             Inl e \<Rightarrow> (Some (Inl e), [Read_file (path req)], w)
           | Inr bs \<Rightarrow>
               (Some (Inr \<lparr> content = bs, text_encoding = encoding req,
                            content_type = None, status = None \<rparr>),
                [Read_file (path req)], w)))"

text \<open>
  \<^verbatim>\<open>Scraper.get\<close> on a request object (a string argument is first wrapped by
  \<^verbatim>\<open>Request\<close>).
\<close>

definition get ::
  "scraper \<Rightarrow> request \<Rightarrow> net_attempt list \<Rightarrow> (nat \<Rightarrow> real \<times> real) \<Rightarrow> world \<Rightarrow> response outcome" where
  "get sc req script draws w =
     (if req_method req = ''open'' then get_open req w
      else get_loop sc req script draws 0 0 w)"

subsection \<open>get_doc\<close>

text \<open>What one invocation of the source's \<^verbatim>\<open>_get_doc\<close> does: raise, or return a document or \<^verbatim>\<open>None\<close>.\<close>

datatype 'd doc_outcome = Doc_raise exc | Doc_return "'d option"

text \<open>
  The \<^verbatim>\<open>while True\<close> loop of \<^verbatim>\<open>get_doc\<close>, over what successive invocations of
  \<^verbatim>\<open>_get_doc\<close> do. Only \<^verbatim>\<open>except ParseError\<close> guards the call.
\<close>

fun get_doc_loop ::
  "scraper \<Rightarrow> 'd doc_outcome list \<Rightarrow> (nat \<Rightarrow> real \<times> real) \<Rightarrow> nat \<Rightarrow> real
     \<Rightarrow> (exc + 'd option) option \<times> event list" where
  "get_doc_loop sc [] draws attempt elapsed = (None, [])"
| "get_doc_loop sc (Doc_return d # rest) draws attempt elapsed = (Some (Inr d), [Call_get_doc])"
| "get_doc_loop sc (Doc_raise e # rest) draws attempt elapsed =
     (if issubclass (exc_cls e) ParseError then
        if elapsed > stop_after_waiting sc then (Some (Inl e), [Call_get_doc])
        else
          (let attempt' = attempt + 1;
               wait = backoff sc attempt' (draws attempt')
           in case get_doc_loop sc rest draws attempt' (elapsed + wait) of
                (r, evs) \<Rightarrow> (r, [Call_get_doc, Sleep wait] @ evs))
      else (Some (Inl e), [Call_get_doc]))"

definition get_doc ::
  "scraper \<Rightarrow> 'd doc_outcome list \<Rightarrow> (nat \<Rightarrow> real \<times> real)
     \<Rightarrow> (exc + 'd option) option \<times> event list" where
  "get_doc sc outcomes draws = get_doc_loop sc outcomes draws 0 0"

text \<open>A scraper constructed with every optional argument left out.\<close>

definition default_scraper :: scraper where
  "default_scraper = Scraper_init None None default_retry_exceptions default_retry_statuses"

section \<open>Reading a trace\<close>

text \<open>The waits slept during a call, in order.\<close>

fun sleeps :: "event list \<Rightarrow> real list" where
  "sleeps [] = []"
| "sleeps (Sleep t # evs) = t # sleeps evs"
| "sleeps (ev # evs) = sleeps evs"

text \<open>The events that open, use or close a session.\<close>

fun is_session_event :: "event \<Rightarrow> bool" where
  "is_session_event (Session_open s) = True"
| "is_session_event (Send s q) = True"
| "is_session_event (Session_close s) = True"
| "is_session_event ev = False"

text \<open>A world at time 0 with no session closed, none created and no file.\<close>

definition start_world :: world where
  "start_world = \<lparr> now = 0, closed = {}, fresh = 0, files = Map.empty \<rparr>"

text \<open>
  The trace of \<open>k\<close> failed invocations of \<^verbatim>\<open>_get_doc\<close>, each followed by its wait, when
  the attempt counter stood at \<open>n\<close> before the first of them.
\<close>

definition doc_retries :: "scraper \<Rightarrow> (nat \<Rightarrow> real \<times> real) \<Rightarrow> nat \<Rightarrow> nat \<Rightarrow> event list" where
  "doc_retries sc draws n k =
     concat (map (\<lambda>i. [Call_get_doc, Sleep (backoff sc i (draws i))]) [Suc n ..< Suc (n + k)])"

text \<open>
  The trace and the world left by a series of failed attempts of \<^verbatim>\<open>get\<close>, each followed
  by its wait, when the attempt counter stood at \<open>n\<close> before the first of them.
\<close>

fun retries ::
  "scraper \<Rightarrow> request \<Rightarrow> net_attempt list \<Rightarrow> (nat \<Rightarrow> real \<times> real) \<Rightarrow> nat \<Rightarrow> world
     \<Rightarrow> event list \<times> world" where
  "retries sc req [] draws n w = ([], w)"
| "retries sc req (a # rest) draws n w =
     (case request_attempt sc req a w of
        (r, evs, w') \<Rightarrow>
          (case retries sc req rest draws (Suc n)
                  (w'\<lparr>now := now w' + backoff sc (Suc n) (draws (Suc n))\<rparr>) of
             (evs', w'') \<Rightarrow> (evs @ [Sleep (backoff sc (Suc n) (draws (Suc n)))] @ evs', w'')))"

text \<open>A request sent over the network, for the examples.\<close>

definition example_request :: request where
  "example_request = \<lparr> path = ''https://example.org/index'', req_method = ''get'', encoding = ''utf-8'' \<rparr>"

section \<open>The source scrapers\<close>

text \<open>
  Evaluating a comprehension whose element expression may raise: the elements in order,
  up to the first exception.
\<close>

fun collect :: "('a \<Rightarrow> exc + 'b) \<Rightarrow> 'a list \<Rightarrow> exc + 'b list" where
  "collect f [] = Inr []"
| "collect f (x # xs) =
     (case f x of
        Inl e \<Rightarrow> Inl e
      | Inr y \<Rightarrow> (case collect f xs of Inl e \<Rightarrow> Inl e | Inr ys \<Rightarrow> Inr (y # ys)))"

text \<open>The same for an element expression that awaits, and so acts on the world.\<close>

fun collect_awaited :: "('a \<Rightarrow> world \<Rightarrow> 'b outcome) \<Rightarrow> 'a list \<Rightarrow> world \<Rightarrow> 'b list outcome" where
  "collect_awaited f [] w = (Some (Inr []), [], w)"
| "collect_awaited f (x # xs) w =
     (case f x w of
        (None, evs, w') \<Rightarrow> (None, evs, w')
      | (Some (Inl e), evs, w') \<Rightarrow> (Some (Inl e), evs, w')
      | (Some (Inr y), evs, w') \<Rightarrow>
          (case collect_awaited f xs w' of
             (None, evs', w'') \<Rightarrow> (None, evs @ evs', w'')
           | (Some (Inl e), evs', w'') \<Rightarrow> (Some (Inl e), evs @ evs', w'')
           | (Some (Inr ys), evs', w'') \<Rightarrow> (Some (Inr (y # ys)), evs @ evs', w'')))"

text \<open>
  A scraper whose constructor has taken the semaphore of the base class:
  \<^verbatim>\<open>
  self._semaphore = self.semaphore
  self.semaphore = nullcontext()
  \<close>
  \<open>engine\<close> is the \<open>Scraper\<close> part of the object, \<open>priv_semaphore\<close> its \<^verbatim>\<open>_semaphore\<close>.
\<close>

record taking_scraper =
  engine :: scraper
  priv_semaphore :: gate

subsection \<open>high_court_of_australia.py\<close>

definition HighCourtOfAustralia_init :: "gate option \<Rightarrow> session_id option \<Rightarrow> taking_scraper" where
  "HighCourtOfAustralia_init sem sess =
     (let base = Scraper_init (Some (case sem of None \<Rightarrow> Semaphore 4 | Some g \<Rightarrow> g)) sess
                   default_retry_exceptions default_retry_statuses
      in \<lparr> engine = base\<lparr> semaphore := Nullcontext,
                          stop_after_waiting := stop_after_waiting base + 30 * 60,
                          max_wait := max_wait base + 5 * 60,
                          wait_base := wait_base base + 2 \<rparr>,
           priv_semaphore = semaphore base \<rparr>)"

text \<open>
  \<^verbatim>\<open>HighCourtOfAustralia.get_index\<close>:
  \<^verbatim>\<open>
  resp = (await self.get(req)).text
  return {Entry(...) for slug, title_html in re.findall(..., resp)}
  \<close>
  \<open>findall_cases\<close> stands for the search of the response text for case links and
  \<open>make_entry\<close> for the construction of an entry from a match, which raises when the
  title cannot be found.
\<close>

definition hca_get_index ::
  "taking_scraper \<Rightarrow> (response \<Rightarrow> (string \<times> string) list) \<Rightarrow> (string \<times> string \<Rightarrow> exc + 'e)
     \<Rightarrow> request \<Rightarrow> net_attempt list \<Rightarrow> (nat \<Rightarrow> real \<times> real) \<Rightarrow> world \<Rightarrow> 'e set outcome" where
  "hca_get_index sc findall_cases make_entry req script draws w =
     (case get (engine sc) req script draws w of
        (None, evs, w') \<Rightarrow> (None, evs, w')
      | (Some (Inl e), evs, w') \<Rightarrow> (Some (Inl e), evs, w')
      | (Some (Inr resp), evs, w') \<Rightarrow>
          (case collect make_entry (findall_cases resp) of
             Inl e \<Rightarrow> (Some (Inl e), evs, w')
           | Inr entries \<Rightarrow> (Some (Inr (set entries)), evs, w')))"

subsection \<open>western_australian_legislation.py\<close>

definition WesternAustralianLegislation_init :: "gate option \<Rightarrow> session_id option \<Rightarrow> scraper" where
  "WesternAustralianLegislation_init sem sess =
     Scraper_init sem sess default_retry_exceptions default_retry_statuses"

text \<open>
  \<^verbatim>\<open>WesternAustralianLegislation.get_index\<close>:
  \<^verbatim>\<open>
  type = 'primary_legislation' if 'acts' in req.path else 'secondary_legislation'
  resp = (await self.get(req)).text
  rows = re.findall(r"<tr>((?:.|\n)*?)</tr>", resp)[1:]
  return {await self._get_entry(row, type) for row in rows}
  \<close>
  \<open>findall_rows\<close> stands for the search of the response text for table rows and
  \<open>get_entry\<close> for \<^verbatim>\<open>_get_entry\<close>, which may fetch a further page. \<open>acts_in_path\<close> is
  the substring test on the path.
\<close>

definition wa_get_index ::
  "scraper \<Rightarrow> (string \<Rightarrow> bool) \<Rightarrow> (response \<Rightarrow> string list)
     \<Rightarrow> (string \<Rightarrow> string \<Rightarrow> world \<Rightarrow> 'e outcome)
     \<Rightarrow> request \<Rightarrow> net_attempt list \<Rightarrow> (nat \<Rightarrow> real \<times> real) \<Rightarrow> world \<Rightarrow> 'e set outcome" where
  "wa_get_index sc acts_in_path findall_rows get_entry req script draws w =
     (let type = (if acts_in_path (path req) then ''primary_legislation''
                  else ''secondary_legislation'')
      in case get sc req script draws w of
           (None, evs, w') \<Rightarrow> (None, evs, w')
         | (Some (Inl e), evs, w') \<Rightarrow> (Some (Inl e), evs, w')
         | (Some (Inr resp), evs, w') \<Rightarrow>
             (let rows = drop 1 (findall_rows resp)
              in case collect_awaited (\<lambda>row. get_entry row type) rows w' of
                   (None, evs', w'') \<Rightarrow> (None, evs @ evs', w'')
                 | (Some (Inl e), evs', w'') \<Rightarrow> (Some (Inl e), evs @ evs', w'')
                 | (Some (Inr entries), evs', w'') \<Rightarrow>
                     (Some (Inr (set entries)), evs @ evs', w'')))"

subsection \<open>federal_register_of_legislation.py\<close>

definition FederalRegisterOfLegislation_init ::
  "gate option \<Rightarrow> session_id option \<Rightarrow> taking_scraper" where
  "FederalRegisterOfLegislation_init sem sess =
     (let base = Scraper_init sem sess default_retry_exceptions default_retry_statuses
      in \<lparr> engine = base\<lparr> semaphore := Nullcontext,
                          retry_statuses := retry_statuses base @ [502, 400] \<rparr>,
           priv_semaphore = semaphore base \<rparr>)"

text \<open>
  \<^verbatim>\<open>FederalRegisterOfLegislation.get\<close> wraps \<^verbatim>\<open>super().get\<close> in a second retry loop:
  a response that contains \<^verbatim>\<open>b'The service is unavailable.'\<close> raises a \<open>ParseError\<close>,
  and a \<open>ParseError\<close> is retried as in \<open>get_doc\<close>. Each call of \<^verbatim>\<open>super().get\<close> meets
  its own stretch of network behaviour and its own draws. \<open>unavailable\<close> is the test
  \<^verbatim>\<open>b'The service is unavailable.' in content\<close>.
\<close>

fun frl_get_loop ::
  "taking_scraper \<Rightarrow> (response \<Rightarrow> bool) \<Rightarrow> request
     \<Rightarrow> (net_attempt list \<times> (nat \<Rightarrow> real \<times> real)) list \<Rightarrow> (nat \<Rightarrow> real \<times> real)
     \<Rightarrow> nat \<Rightarrow> real \<Rightarrow> world \<Rightarrow> response outcome" where
  "frl_get_loop sc unavailable req [] draws attempt elapsed w = (None, [], w)"
| "frl_get_loop sc unavailable req (call # rest) draws attempt elapsed w =
     (case get (engine sc) req (fst call) (snd call) w of
        (None, evs, w') \<Rightarrow> (None, evs, w')
      | (Some r, evs, w') \<Rightarrow>
          (case (case r of
                   Inl e \<Rightarrow> Inl e
                 | Inr resp \<Rightarrow>
                     if unavailable resp
                     then Inl (Exc ParseError None
                                ''The Federal Register of Legislation servers are currently overloaded.'')
                     else Inr resp) of
             Inr resp \<Rightarrow> (Some (Inr resp), evs, w')
           | Inl e \<Rightarrow>
               if issubclass (exc_cls e) ParseError then
                 if elapsed > stop_after_waiting (engine sc) then (Some (Inl e), evs, w')
                 else
                   (let attempt' = attempt + 1;
                        wait = backoff (engine sc) attempt' (draws attempt')
                    in case frl_get_loop sc unavailable req rest draws attempt' (elapsed + wait)
                              (w'\<lparr>now := now w' + wait\<rparr>) of
                         (r', evs', w'') \<Rightarrow> (r', evs @ [Sleep wait] @ evs', w''))
               else (Some (Inl e), evs, w')))"

definition frl_get ::
  "taking_scraper \<Rightarrow> (response \<Rightarrow> bool) \<Rightarrow> request
     \<Rightarrow> (net_attempt list \<times> (nat \<Rightarrow> real \<times> real)) list \<Rightarrow> (nat \<Rightarrow> real \<times> real)
     \<Rightarrow> world \<Rightarrow> response outcome" where
  "frl_get sc unavailable req calls draws w = frl_get_loop sc unavailable req calls draws 0 0 w"

text \<open>
  \<^verbatim>\<open>FederalRegisterOfLegislation.get_index\<close>:
  \<^verbatim>\<open>
  async with self._semaphore:
      resp = (await self.get(req))
      if len(resp.json['value']) == 0:
          raise Exception(f'No entries were found for the request:\n{req}')
      return {Entry(...) for entry in resp.json['value']}
  \<close>
  \<open>json_value\<close> stands for \<^verbatim>\<open>resp.json['value']\<close>, which raises on a malformed body,
  and \<open>make_entry\<close> for the construction of an entry from one of its items. A call that
  is still running has not left the semaphore.
\<close>

definition frl_get_index ::
  "taking_scraper \<Rightarrow> (response \<Rightarrow> bool) \<Rightarrow> (response \<Rightarrow> exc + 'j list) \<Rightarrow> ('j \<Rightarrow> exc + 'e)
     \<Rightarrow> request \<Rightarrow> (net_attempt list \<times> (nat \<Rightarrow> real \<times> real)) list \<Rightarrow> (nat \<Rightarrow> real \<times> real)
     \<Rightarrow> world \<Rightarrow> 'e set outcome" where
  "frl_get_index sc unavailable json_value make_entry req calls draws w =
     (case frl_get sc unavailable req calls draws w of
        (None, evs, w') \<Rightarrow> (None, enter_gate (priv_semaphore sc) @ evs, w')
      | (Some r, evs, w') \<Rightarrow>
          ((case r of
              Inl e \<Rightarrow> Some (Inl e)
            | Inr resp \<Rightarrow>
                (case json_value resp of
                   Inl e \<Rightarrow> Some (Inl e)
                 | Inr value \<Rightarrow>
                     if length value = 0
                     then Some (Inl (Exc Exception None ''No entries were found for the request''))
                     else (case collect make_entry value of
                             Inl e \<Rightarrow> Some (Inl e)
                           | Inr entries \<Rightarrow> Some (Inr (set entries))))),
           enter_gate (priv_semaphore sc) @ evs @ exit_gate (priv_semaphore sc), w'))"

section \<open>Requests inside the scope of a semaphore\<close>

text \<open>
  Every request of a trace is sent while a permit is held: \<open>h\<close> counts the permits
  acquired and not yet released.
\<close>

fun sends_guarded :: "nat \<Rightarrow> event list \<Rightarrow> bool" where
  "sends_guarded h [] = True"
| "sends_guarded h (Acquire # evs) = sends_guarded (Suc h) evs"
| "sends_guarded h (Release # evs) = sends_guarded (h - 1) evs"
| "sends_guarded h (Send s q # evs) = (0 < h \<and> sends_guarded h evs)"
| "sends_guarded h (ev # evs) = sends_guarded h evs"

section \<open>helpers.py: clean_text\<close>

text \<open>
  A Python string is a sequence of Unicode code points. \<open>is_space\<close> is the class \<^verbatim>\<open>\s\<close>
  of a \<^verbatim>\<open>str\<close> pattern: the characters for which \<^verbatim>\<open>str.isspace\<close> holds.
\<close>

type_synonym str = "nat list"

definition is_space :: "nat \<Rightarrow> bool" where
  "is_space c \<longleftrightarrow>
     (9 \<le> c \<and> c \<le> 13) \<or> (28 \<le> c \<and> c \<le> 32) \<or> c = 133 \<or> c = 160 \<or> c = 5760
     \<or> (8192 \<le> c \<and> c \<le> 8202) \<or> c = 8232 \<or> c = 8233 \<or> c = 8239 \<or> c = 8287
     \<or> c = 12288"

text \<open>\<^verbatim>\<open>text.replace('\xa0', ' ')\<close>\<close>

definition replace_nbsp :: "str \<Rightarrow> str" where
  "replace_nbsp text = map (\<lambda>c. if c = 160 then 32 else c) text"

text \<open>
  \<^verbatim>\<open>NON_STANDARD_CONTROL_CHARS_RE.sub('', text)\<close>, the pattern being the class of
  \<^verbatim>\<open>\a \b \f \r \v\<close> (code points 7, 8, 12, 13 and 11).
\<close>

definition remove_non_standard_control_chars :: "str \<Rightarrow> str" where
  "remove_non_standard_control_chars text = filter (\<lambda>c. c \<notin> {7, 8, 12, 13, 11}) text"

text \<open>\<^verbatim>\<open>text.split('\n')\<close> and \<^verbatim>\<open>'\n'.join(lines)\<close>\<close>

fun split_nl :: "str \<Rightarrow> str list" where
  "split_nl [] = [[]]"
| "split_nl (c # cs) =
     (if c = 10 then [] # split_nl cs
      else (case split_nl cs of [] \<Rightarrow> [[c]] | l # ls \<Rightarrow> (c # l) # ls))"

fun join_nl :: "str list \<Rightarrow> str" where
  "join_nl [] = []"
| "join_nl [l] = l"
| "join_nl (l # ls) = l @ 10 # join_nl ls"

text \<open>
  \<^verbatim>\<open>\s*$\<close> matches from the current position: only whitespace is left, \<^verbatim>\<open>$\<close> standing
  for the end of the string or the place before a newline that ends it.
\<close>

fun ws_to_end :: "str \<Rightarrow> bool" where
  "ws_to_end [] = True"
| "ws_to_end (c # cs) = ((is_space c \<and> ws_to_end cs) \<or> (c = 10 \<and> cs = []))"

text \<open>
  \<^verbatim>\<open>re.sub(r'\s+$', '', line)\<close>: the leftmost position from which \<^verbatim>\<open>\s+$\<close> matches is
  found, and the match, which runs to the end, is removed.
\<close>

fun sub_trailing_ws :: "str \<Rightarrow> str" where
  "sub_trailing_ws [] = []"
| "sub_trailing_ws (c # cs) = (if is_space c \<and> ws_to_end cs then [] else c # sub_trailing_ws cs)"

text \<open>
  A match of \<^verbatim>\<open>\s*\n\<close> at the head of the text, and what follows it: the greedy
  \<^verbatim>\<open>\s*\<close> takes a whitespace character if the rest can still match, and gives it back
  otherwise.
\<close>

fun match_ws_nl :: "str \<Rightarrow> str option" where
  "match_ws_nl [] = None"
| "match_ws_nl (c # cs) =
     (case (if is_space c then match_ws_nl cs else None) of
        Some rest \<Rightarrow> Some rest
      | None \<Rightarrow> if c = 10 then Some cs else None)"

text \<open>
  \<^verbatim>\<open>START_OF_TEXT_THAT_IS_ONLY_WHITESPACE_FOLLOWED_BY_A_NEWLINE_RE.sub('', text)\<close>, the
  pattern being \<^verbatim>\<open>^\s*\n\<close>, which can only match at the start.
\<close>

definition sub_start :: "str \<Rightarrow> str" where
  "sub_start text = (case match_ws_nl text of Some rest \<Rightarrow> rest | None \<Rightarrow> text)"

text \<open>
  \<^verbatim>\<open>END_OF_TEXT_THAT_IS_ONLY_WHITESPACE_PRECEDED_BY_A_NEWLINE_RE.sub('', text)\<close>, the
  pattern being \<^verbatim>\<open>\n\s*$\<close>: the leftmost newline after which only whitespace is left
  starts the match, which runs to the end.
\<close>

fun sub_end :: "str \<Rightarrow> str" where
  "sub_end [] = []"
| "sub_end (c # cs) = (if c = 10 \<and> ws_to_end cs then [] else c # sub_end cs)"

text \<open>\<open>fix_text\<close> stands for \<^verbatim>\<open>ftfy.fix_text\<close>.\<close>

definition clean_text :: "(str \<Rightarrow> str) \<Rightarrow> str \<Rightarrow> bool \<Rightarrow> bool \<Rightarrow> bool \<Rightarrow> bool \<Rightarrow> str" where
  "clean_text fix_text text fix_encoding normalise_nbsp remove_non_standard_ccs
       remove_unnecessary_whitespace =
     (let text = (if fix_encoding then fix_text text else text);
          text = (if normalise_nbsp then replace_nbsp text else text);
          text = (if remove_non_standard_ccs then remove_non_standard_control_chars text
                  else text);
          text = (if remove_unnecessary_whitespace
                  then sub_end (sub_start (join_nl (map sub_trailing_ws (split_nl text))))
                  else text)
      in text)"

section \<open>Properties of batch_generator\<close>




section \<open>Properties of the backoff computation\<close>





lemma extra_jitter_range:
  assumes "0 \<le> max_extra_jitter sc" "0 \<le> u" "u \<le> 1"
  shows "0 \<le> extra_jitter sc u" "extra_jitter sc u \<le> max_extra_jitter sc"
  using assms mult_left_mono [OF assms(3) assms(1)] by (simp_all add: extra_jitter_def uniform_def)

lemma backoff_upper:
  assumes "0 \<le> max_extra_jitter sc" "0 \<le> snd us" "snd us \<le> 1"
  shows "backoff sc n us \<le> max_wait sc + max_extra_jitter sc"
  using extra_jitter_range(2) [OF assms] by (simp add: backoff_def Let_def)

text \<open>
  The base and the extra jitter are not constructor arguments: \<^verbatim>\<open>Scraper.__init__\<close> sets
  them to 1.25 and 0.05, and the only change any scraper makes is the High Court's
  \<^verbatim>\<open>self.wait_base += 2\<close>. Every scraper therefore has a base of at least 1 and a
  non-negative extra jitter.
\<close>

lemma constructed_backoff_parameters:
  "wait_base (Scraper_init sem sess rexc rstat) = 5 / 4"
  "max_extra_jitter (Scraper_init sem sess rexc rstat) = 1 / 20"
  "wait_base (engine (HighCourtOfAustralia_init sem sess)) = 13 / 4"
  "max_extra_jitter (engine (HighCourtOfAustralia_init sem sess)) = 1 / 20"
  "wait_base (engine (FederalRegisterOfLegislation_init sem sess)) = 5 / 4"
  "max_extra_jitter (engine (FederalRegisterOfLegislation_init sem sess)) = 1 / 20"
  "wait_base (WesternAustralianLegislation_init sem sess) = 5 / 4"
  "max_extra_jitter (WesternAustralianLegislation_init sem sess) = 1 / 20"
  by (simp_all add: Scraper_init_def HighCourtOfAustralia_init_def
      FederalRegisterOfLegislation_init_def WesternAustralianLegislation_init_def Let_def)



section \<open>Properties of get_doc\<close>

lemma doc_retries_Suc:
  "doc_retries sc draws n (Suc k)
     = [Call_get_doc, Sleep (backoff sc (Suc n) (draws (Suc n)))] @ doc_retries sc draws (Suc n) k"
proof -
  have "[Suc n ..< Suc (n + Suc k)] = Suc n # [Suc (Suc n) ..< Suc (Suc n + k)]"
    by (subst upt_conv_Cons) auto
  then show ?thesis by (simp add: doc_retries_def)
qed

lemma get_doc_loop_run:
  assumes "\<forall>e \<in> set es. issubclass (exc_cls e) ParseError"
      and "\<forall>j < length es. elapsed_after sc draws (n + j) \<le> stop_after_waiting sc"
  shows "get_doc_loop sc (map Doc_raise es @ tail) draws n (elapsed_after sc draws n)
         = (case get_doc_loop sc tail draws (n + length es) (elapsed_after sc draws (n + length es)) of
              (r, evs) \<Rightarrow> (r, doc_retries sc draws n (length es) @ evs))"
  using assms
proof (induction es arbitrary: n)
  case Nil
  then show ?case by (simp add: doc_retries_def)
next
  case (Cons e es)
  have pe: "issubclass (exc_cls e) ParseError" using Cons.prems(1) by simp
  have low: "\<not> elapsed_after sc draws n > stop_after_waiting sc"
    using Cons.prems(2) by (auto dest!: spec [of _ 0])
  have within: "\<forall>j < length es. elapsed_after sc draws (Suc n + j) \<le> stop_after_waiting sc"
  proof (intro allI impI)
    fix j assume "j < length es"
    then have "Suc j < length (e # es)" by simp
    with Cons.prems(2) have "elapsed_after sc draws (n + Suc j) \<le> stop_after_waiting sc" by blast
    then show "elapsed_after sc draws (Suc n + j) \<le> stop_after_waiting sc" by simp
  qed
  have IH: "get_doc_loop sc (map Doc_raise es @ tail) draws (Suc n) (elapsed_after sc draws (Suc n))
         = (case get_doc_loop sc tail draws (Suc n + length es) (elapsed_after sc draws (Suc n + length es)) of
              (r, evs) \<Rightarrow> (r, doc_retries sc draws (Suc n) (length es) @ evs))"
    using Cons.IH [of "Suc n"] Cons.prems(1) within by simp
  have el: "elapsed_after sc draws n + backoff sc (Suc n) (draws (Suc n)) = elapsed_after sc draws (Suc n)"
    by simp
  show ?case
    using pe low IH el
    by (simp add: Let_def doc_retries_Suc split: prod.splits del: elapsed_after.simps)
qed


lemma sleeps_append: "sleeps (xs @ ys) = sleeps xs @ sleeps ys"
  by (induction xs rule: sleeps.induct) auto

lemma sleeps_doc_retries:
  "sleeps (concat (map (\<lambda>i. [Call_get_doc, Sleep (f i)]) xs)) = map f xs"
  by (induction xs) auto

lemma get_doc_run:
  assumes "\<forall>e \<in> set es. issubclass (exc_cls e) ParseError"
      and "\<forall>j < length es. elapsed_after sc draws j \<le> stop_after_waiting sc"
  shows "get_doc sc (map Doc_raise es @ tail) draws
         = (case get_doc_loop sc tail draws (length es) (elapsed_after sc draws (length es)) of
              (r, evs) \<Rightarrow> (r, doc_retries sc draws 0 (length es) @ evs))"
  using get_doc_loop_run [of es sc draws 0 tail] assms by (simp add: get_doc_def)

lemma first_wait_within:
  assumes "max_wait sc + max_extra_jitter sc \<le> stop_after_waiting sc"
      and "0 \<le> max_extra_jitter sc" "0 \<le> stop_after_waiting sc"
      and "0 \<le> snd (draws 1)" "snd (draws 1) \<le> 1"
  shows "\<forall>j < 2. elapsed_after sc draws j \<le> stop_after_waiting sc"
proof (intro allI impI)
  fix j :: nat assume "j < 2"
  then consider "j = 0" | "j = 1" by linarith
  then show "elapsed_after sc draws j \<le> stop_after_waiting sc"
  proof cases
    case 1
    then show ?thesis using assms(3) by simp
  next
    case 2
    have "backoff sc 1 (draws 1) \<le> max_wait sc + max_extra_jitter sc"
      using backoff_upper [of sc "draws 1" 1] assms by simp
    then show ?thesis using 2 assms(1) by simp
  qed
qed

text \<open>
  Claim C2. \<open>get_doc\<close> invokes \<open>_get_doc\<close>. Each \<open>ParseError\<close> raised while the loop's
  own \<open>elapsed\<close> (the sum of the waits it has slept, starting from 0 with its own attempt
  counter) is within the ceiling is followed by one backoff wait and a new invocation;
  the run ends with the first invocation that returns (its result is returned), that
  raises anything else (it propagates at once, without a wait), or that raises a
  \<open>ParseError\<close> once \<open>elapsed\<close> exceeds the ceiling (that last error is re-raised). In
  particular, with the single wait capped below the ceiling as the constructor sets it,
  two \<open>ParseError\<close>s followed by a document give the document after exactly two waits.
\<close>

theorem get_doc_retries_parse_errors_only:
  assumes "\<forall>e \<in> set es. issubclass (exc_cls e) ParseError"
      and "\<forall>j < length es. elapsed_after sc draws j \<le> stop_after_waiting sc"
  shows "get_doc sc (map Doc_raise es @ Doc_return d # rest) draws
           = (Some (Inr d), doc_retries sc draws 0 (length es) @ [Call_get_doc])
         \<and> (\<not> issubclass (exc_cls other) ParseError \<longrightarrow>
              get_doc sc (map Doc_raise es @ Doc_raise other # rest) draws
                = (Some (Inl other), doc_retries sc draws 0 (length es) @ [Call_get_doc]))
         \<and> (issubclass (exc_cls final) ParseError
              \<and> elapsed_after sc draws (length es) > stop_after_waiting sc \<longrightarrow>
              get_doc sc (map Doc_raise es @ Doc_raise final # rest) draws
                = (Some (Inl final), doc_retries sc draws 0 (length es) @ [Call_get_doc]))
         \<and> sleeps (doc_retries sc draws 0 (length es))
             = map (\<lambda>i. backoff sc i (draws i)) [1 ..< Suc (length es)]
         \<and> (issubclass (exc_cls e1) ParseError \<and> issubclass (exc_cls e2) ParseError
              \<and> max_wait sc + max_extra_jitter sc \<le> stop_after_waiting sc
              \<and> 0 \<le> max_extra_jitter sc \<and> 0 \<le> stop_after_waiting sc
              \<and> 0 \<le> snd (draws 1) \<and> snd (draws 1) \<le> 1 \<longrightarrow>
              get_doc sc (Doc_raise e1 # Doc_raise e2 # Doc_return d # rest) draws
                = (Some (Inr d),
                   [Call_get_doc, Sleep (backoff sc 1 (draws 1)),
                    Call_get_doc, Sleep (backoff sc 2 (draws 2)), Call_get_doc]))"
proof -
  have a: "get_doc sc (map Doc_raise es @ Doc_return d # rest) draws
           = (Some (Inr d), doc_retries sc draws 0 (length es) @ [Call_get_doc])"
    using get_doc_run [OF assms, of "Doc_return d # rest"] by simp
  have b: "\<not> issubclass (exc_cls other) ParseError \<longrightarrow>
              get_doc sc (map Doc_raise es @ Doc_raise other # rest) draws
                = (Some (Inl other), doc_retries sc draws 0 (length es) @ [Call_get_doc])"
    using get_doc_run [OF assms, of "Doc_raise other # rest"] by simp
  have c: "issubclass (exc_cls final) ParseError
              \<and> elapsed_after sc draws (length es) > stop_after_waiting sc \<longrightarrow>
              get_doc sc (map Doc_raise es @ Doc_raise final # rest) draws
                = (Some (Inl final), doc_retries sc draws 0 (length es) @ [Call_get_doc])"
    using get_doc_run [OF assms, of "Doc_raise final # rest"] by simp
  have s: "sleeps (doc_retries sc draws 0 k) = map (\<lambda>i. backoff sc i (draws i)) [1 ..< Suc k]" for k
    by (simp add: doc_retries_def sleeps_doc_retries)
  have p: "issubclass (exc_cls e1) ParseError \<and> issubclass (exc_cls e2) ParseError
              \<and> max_wait sc + max_extra_jitter sc \<le> stop_after_waiting sc
              \<and> 0 \<le> max_extra_jitter sc \<and> 0 \<le> stop_after_waiting sc
              \<and> 0 \<le> snd (draws 1) \<and> snd (draws 1) \<le> 1 \<longrightarrow>
              get_doc sc (Doc_raise e1 # Doc_raise e2 # Doc_return d # rest) draws
                = (Some (Inr d),
                   [Call_get_doc, Sleep (backoff sc 1 (draws 1)),
                    Call_get_doc, Sleep (backoff sc 2 (draws 2)), Call_get_doc])"
  proof
    assume h: "issubclass (exc_cls e1) ParseError \<and> issubclass (exc_cls e2) ParseError
              \<and> max_wait sc + max_extra_jitter sc \<le> stop_after_waiting sc
              \<and> 0 \<le> max_extra_jitter sc \<and> 0 \<le> stop_after_waiting sc
              \<and> 0 \<le> snd (draws 1) \<and> snd (draws 1) \<le> 1"
    have w: "\<forall>j < length [e1, e2]. elapsed_after sc draws j \<le> stop_after_waiting sc"
      using first_wait_within [of sc draws] h by simp
    have pe: "\<forall>e \<in> set [e1, e2]. issubclass (exc_cls e) ParseError" using h by simp
    have u: "[Suc 0 ..< 3] = [1, 2]" by (simp add: upt_rec)
    show "get_doc sc (Doc_raise e1 # Doc_raise e2 # Doc_return d # rest) draws
                = (Some (Inr d),
                   [Call_get_doc, Sleep (backoff sc 1 (draws 1)),
                    Call_get_doc, Sleep (backoff sc 2 (draws 2)), Call_get_doc])"
      using get_doc_run [OF pe w, of "Doc_return d # rest"] u
      by (simp add: doc_retries_def numeral_2_eq_2)
  qed
  from a b c s p show ?thesis by blast
qed


theorem get_doc_retries_parse_errors_only_witness:
  "issubclass (exc_cls (Exc ParseError None ''overloaded'')) ParseError
   \<and> elapsed_after default_scraper (\<lambda>n. (1/2, 1/2)) 0 \<le> stop_after_waiting default_scraper
   \<and> elapsed_after default_scraper (\<lambda>n. (1/2, 1/2)) 1 \<le> stop_after_waiting default_scraper
   \<and> \<not> issubclass (exc_cls (Exc TimeoutError None [])) ParseError
   \<and> max_wait default_scraper + max_extra_jitter default_scraper
        \<le> stop_after_waiting default_scraper
   \<and> 0 \<le> max_extra_jitter default_scraper \<and> 0 \<le> stop_after_waiting default_scraper
   \<and> get_doc default_scraper
        [Doc_raise (Exc ParseError None ''overloaded''),
         Doc_raise (Exc ParseError None ''overloaded''), Doc_return (Some (7::nat))]
        (\<lambda>n. (1/2, 1/2))
       = (Some (Inr (Some 7)),
          [Call_get_doc, Sleep (77 / 80), Call_get_doc, Sleep (383 / 320), Call_get_doc])
   \<and> get_doc default_scraper
        [Doc_raise (Exc ParseError None ''overloaded''),
         Doc_raise (Exc ParseError None ''overloaded''),
         Doc_raise (Exc TimeoutError None []) :: nat doc_outcome]
        (\<lambda>n. (1/2, 1/2))
       = (Some (Inl (Exc TimeoutError None [])),
          [Call_get_doc, Sleep (77 / 80), Call_get_doc, Sleep (383 / 320), Call_get_doc])
   \<and> stop_after_waiting (default_scraper\<lparr>stop_after_waiting := 2\<rparr>)
        < elapsed_after (default_scraper\<lparr>stop_after_waiting := 2\<rparr>) (\<lambda>n. (1/2, 1/2)) 2
   \<and> get_doc (default_scraper\<lparr>stop_after_waiting := 2\<rparr>)
        [Doc_raise (Exc ParseError None ''overloaded''),
         Doc_raise (Exc ParseError None ''overloaded''),
         Doc_raise (Exc ParseError None ''still overloaded'') :: nat doc_outcome]
        (\<lambda>n. (1/2, 1/2))
       = (Some (Inl (Exc ParseError None ''still overloaded'')),
          [Call_get_doc, Sleep (77 / 80), Call_get_doc, Sleep (383 / 320), Call_get_doc])"
proof -
  let ?pe = "Exc ParseError None ''overloaded''"
  let ?dr = "\<lambda>n::nat. (1/2 :: real, 1/2 :: real)"
  let ?sc = "default_scraper\<lparr>stop_after_waiting := 2\<rparr>"
  have ev: "backoff default_scraper (Suc 0) (1/2, 1/2) = 77 / 80"
      "backoff default_scraper (Suc (Suc 0)) (1/2, 1/2) = 383 / 320"
      "backoff ?sc (Suc 0) (1/2, 1/2) = 77 / 80"
      "backoff ?sc (Suc (Suc 0)) (1/2, 1/2) = 383 / 320"
    by (simp_all add: default_scraper_def Scraper_init_def backoff_def raw_wait_def jitter_def
        extra_jitter_def uniform_def Let_def power_divide)
  have cfg: "stop_after_waiting default_scraper = 900" "max_wait default_scraper = 150"
      "max_extra_jitter default_scraper = 1 / 20" "stop_after_waiting ?sc = 2"
    by (simp_all add: default_scraper_def Scraper_init_def)
  have el: "elapsed_after default_scraper ?dr 0 = 0" "elapsed_after default_scraper ?dr (Suc 0) = 77 / 80"
      "elapsed_after ?sc ?dr 0 = 0" "elapsed_after ?sc ?dr (Suc 0) = 77 / 80"
      "elapsed_after ?sc ?dr 2 = 77 / 80 + 383 / 320"
    by (simp_all add: ev numeral_2_eq_2)
  have h1: "\<forall>e \<in> set [?pe, ?pe]. issubclass (exc_cls e) ParseError"
    by (simp add: issubclass_def)
  have h2: "\<forall>j < length [?pe, ?pe]. elapsed_after default_scraper ?dr j \<le> stop_after_waiting default_scraper"
    by (simp add: ev cfg All_less_Suc numeral_2_eq_2)
  have h3: "\<forall>j < length [?pe, ?pe]. elapsed_after ?sc ?dr j \<le> stop_after_waiting ?sc"
    by (simp add: ev cfg All_less_Suc numeral_2_eq_2)
  have no: "\<not> issubclass (exc_cls (Exc TimeoutError None [])) ParseError"
    by (simp add: issubclass_def)
  have u: "[Suc 0 ..< 3] = [1, 2]" by (simp add: upt_rec)
  note t1 = get_doc_retries_parse_errors_only [OF h1 h2, of "Some (7::nat)" "[]"
      "Exc TimeoutError None []" "Exc ParseError None ''still overloaded''" ?pe ?pe]
  note t2 = get_doc_retries_parse_errors_only [OF h1 h3, of "Some (7::nat)" "[]"
      "Exc TimeoutError None []" "Exc ParseError None ''still overloaded''" ?pe ?pe]
  show ?thesis
    using t1 t2
    by (simp add: ev el cfg u doc_retries_def issubclass_def numeral_2_eq_2 All_less_Suc)
qed

section \<open>Properties of get: the retry loop\<close>

lemma request_attempt_result:
  "fst (request_attempt sc req a w) = issue_request sc req (snd a)"
  by (simp add: request_attempt_def Let_def split: option.splits)

lemma sleeps_gates: "sleeps (enter_gate g) = []" "sleeps (exit_gate g) = []"
  by (simp_all add: enter_gate_def exit_gate_def split: gate.splits)

lemma request_attempt_no_sleep:
  "sleeps (fst (snd (request_attempt sc req a w))) = []"
  by (simp add: request_attempt_def Let_def sleeps_append sleeps_gates split: option.splits)

lemma get_loop_raise:
  assumes "issue_request sc req (snd a) = Inl e"
  shows "get_loop sc req (a # rest) draws n el w =
     (if caught_by (retry_exceptions sc) e \<and> \<not> el > stop_after_waiting sc
      then (case get_loop sc req rest draws (Suc n) (el + backoff sc (Suc n) (draws (Suc n)))
                   ((snd (snd (request_attempt sc req a w)))
                      \<lparr>now := now (snd (snd (request_attempt sc req a w)))
                                + backoff sc (Suc n) (draws (Suc n))\<rparr>) of
              (r, evs', w'') \<Rightarrow>
                (r, fst (snd (request_attempt sc req a w))
                      @ [Sleep (backoff sc (Suc n) (draws (Suc n)))] @ evs', w''))
      else (Some (Inl e), fst (snd (request_attempt sc req a w)),
            snd (snd (request_attempt sc req a w))))"
proof -
  obtain r evs w' where ra: "request_attempt sc req a w = (r, evs, w')"
    by (cases "request_attempt sc req a w") auto
  with request_attempt_result [of sc req a w] assms have "r = Inl e" by simp
  with ra show ?thesis by (simp add: Let_def)
qed

lemma get_loop_return:
  assumes "issue_request sc req (snd a) = Inr resp"
  shows "get_loop sc req (a # rest) draws n el w =
     (Some (Inr resp), fst (snd (request_attempt sc req a w)),
      snd (snd (request_attempt sc req a w)))"
proof -
  obtain r evs w' where ra: "request_attempt sc req a w = (r, evs, w')"
    by (cases "request_attempt sc req a w") auto
  with request_attempt_result [of sc req a w] assms have "r = Inr resp" by simp
  with ra show ?thesis by simp
qed

lemma retries_Cons:
  "retries sc req (a # rest) draws n w =
     (case retries sc req rest draws (Suc n)
             ((snd (snd (request_attempt sc req a w)))
                \<lparr>now := now (snd (snd (request_attempt sc req a w)))
                          + backoff sc (Suc n) (draws (Suc n))\<rparr>) of
        (evs', w'') \<Rightarrow>
          (fst (snd (request_attempt sc req a w))
             @ [Sleep (backoff sc (Suc n) (draws (Suc n)))] @ evs', w''))"
  by (cases "request_attempt sc req a w") (simp add: Let_def)

lemma get_loop_run:
  assumes "\<forall>a \<in> set fails. \<exists>e. issue_request sc req (snd a) = Inl e
             \<and> caught_by (retry_exceptions sc) e"
      and "\<forall>j < length fails. elapsed_after sc draws (n + j) \<le> stop_after_waiting sc"
  shows "get_loop sc req (fails @ tail) draws n (elapsed_after sc draws n) w
         = (case retries sc req fails draws n w of
              (evs, w1) \<Rightarrow>
                (case get_loop sc req tail draws (n + length fails)
                        (elapsed_after sc draws (n + length fails)) w1 of
                   (r, evs', w2) \<Rightarrow> (r, evs @ evs', w2)))"
  using assms
proof (induction fails arbitrary: n w)
  case Nil
  then show ?case by (simp split: prod.splits)
next
  case (Cons a fails)
  from Cons.prems(1) obtain e where e: "issue_request sc req (snd a) = Inl e"
      "caught_by (retry_exceptions sc) e" by auto
  have low: "\<not> elapsed_after sc draws n > stop_after_waiting sc"
    using Cons.prems(2) by (auto dest!: spec [of _ 0])
  have within: "\<forall>j < length fails. elapsed_after sc draws (Suc n + j) \<le> stop_after_waiting sc"
  proof (intro allI impI)
    fix j assume "j < length fails"
    then have "Suc j < length (a # fails)" by simp
    with Cons.prems(2) have "elapsed_after sc draws (n + Suc j) \<le> stop_after_waiting sc" by blast
    then show "elapsed_after sc draws (Suc n + j) \<le> stop_after_waiting sc" by simp
  qed
  have rest: "\<forall>a \<in> set fails. \<exists>e. issue_request sc req (snd a) = Inl e
             \<and> caught_by (retry_exceptions sc) e"
    using Cons.prems(1) by simp
  have el: "elapsed_after sc draws n + backoff sc (Suc n) (draws (Suc n)) = elapsed_after sc draws (Suc n)"
    by simp
  note IH = Cons.IH [OF rest within]
  show ?case
    unfolding append_Cons get_loop_raise [OF e(1)] retries_Cons
    using e(2) low
    by (simp only: el IH if_True simp_thms) (simp split: prod.splits)
qed


lemma sleeps_retries:
  "sleeps (fst (retries sc req fails draws n w))
     = map (\<lambda>i. backoff sc i (draws i)) [Suc n ..< Suc (n + length fails)]"
proof (induction fails arbitrary: n w)
  case Nil
  then show ?case by simp
next
  case (Cons a fails)
  have up: "[Suc n ..< Suc (n + length (a # fails))]
              = Suc n # [Suc (Suc n) ..< Suc (Suc n + length fails)]"
    by (subst upt_conv_Cons) auto
  let ?w = "(snd (snd (request_attempt sc req a w)))
              \<lparr>now := now (snd (snd (request_attempt sc req a w)))
                        + backoff sc (Suc n) (draws (Suc n))\<rparr>"
  obtain evs' w'' where r: "retries sc req fails draws (Suc n) ?w = (evs', w'')"
    by (cases "retries sc req fails draws (Suc n) ?w") auto
  have "sleeps evs' = map (\<lambda>i. backoff sc i (draws i)) [Suc (Suc n) ..< Suc (Suc n + length fails)]"
    using Cons.IH [of "Suc n" ?w] r by simp
  then show ?case
    unfolding retries_Cons up r
    by (simp add: sleeps_append request_attempt_no_sleep del: upt_Suc)
qed

lemma elapsed_after_sum:
  "elapsed_after sc draws k = sum_list (map (\<lambda>i. backoff sc i (draws i)) [1 ..< Suc k])"
  by (induction k) simp_all

lemma backoff_lower:
  assumes "1 \<le> wait_base sc" "0 \<le> max_extra_jitter sc" "0 \<le> fst us" "0 \<le> snd us"
  shows "min (1/2) (max_wait sc) \<le> backoff sc n us"
proof -
  have p: "1 \<le> wait_base sc ^ n" using assms(1) by (rule one_le_power)
  then have r: "1/2 \<le> raw_wait sc n" by (simp add: raw_wait_def)
  then have "0 \<le> raw_wait sc n * fst us" using assms(3) by simp
  then have j: "0 \<le> jitter sc n (fst us)" by (simp add: jitter_def uniform_def)
  have "0 \<le> max_extra_jitter sc * snd us" using assms(2,4) by simp
  then have x: "0 \<le> extra_jitter sc (snd us)" by (simp add: extra_jitter_def uniform_def)
  have "min (1/2) (max_wait sc) \<le> min (raw_wait sc n + jitter sc n (fst us)) (max_wait sc)"
    using r j by (simp add: min_le_iff_disj)
  with x show ?thesis by (simp add: backoff_def Let_def)
qed

lemma elapsed_after_lower:
  assumes "1 \<le> wait_base sc" "0 \<le> max_extra_jitter sc"
      and "\<forall>n. 0 \<le> fst (draws n) \<and> 0 \<le> snd (draws n)"
  shows "real k * min (1/2) (max_wait sc) \<le> elapsed_after sc draws k"
proof (induction k)
  case 0
  then show ?case by simp
next
  case (Suc k)
  have "min (1/2) (max_wait sc) \<le> backoff sc (Suc k) (draws (Suc k))"
    using backoff_lower [of sc "draws (Suc k)" "Suc k"] assms by simp
  with Suc show ?case by (simp add: algebra_simps)
qed

lemma get_loop_reraise_at:
  assumes fails: "\<forall>a \<in> set script. \<exists>e. issue_request sc req (snd a) = Inl e
             \<and> caught_by (retry_exceptions sc) e"
      and ml: "m < length script"
      and m1: "stop_after_waiting sc < elapsed_after sc draws m"
      and m3: "\<forall>j < m. elapsed_after sc draws j \<le> stop_after_waiting sc"
  shows "fst (get_loop sc req script draws 0 0 w) = Some (issue_request sc req (snd (script ! m)))
         \<and> (\<exists>e. issue_request sc req (snd (script ! m)) = Inl e)
         \<and> sleeps (fst (snd (get_loop sc req script draws 0 0 w)))
               = map (\<lambda>i. backoff sc i (draws i)) [1 ..< Suc m]"
proof -
  have split: "script = take m script @ script ! m # drop (Suc m) script"
    using ml by (simp add: id_take_nth_drop)
  have "script ! m \<in> set script" using ml by simp
  with fails obtain e where e: "issue_request sc req (snd (script ! m)) = Inl e"
      "caught_by (retry_exceptions sc) e" by blast
  have f': "\<forall>a \<in> set (take m script). \<exists>e. issue_request sc req (snd a) = Inl e
             \<and> caught_by (retry_exceptions sc) e"
    using fails by (meson in_set_takeD)
  have w': "\<forall>j < length (take m script). elapsed_after sc draws (0 + j) \<le> stop_after_waiting sc"
    using m3 by simp
  have len: "length (take m script) = m" using ml by simp
  obtain evs w1 where rt: "retries sc req (take m script) draws 0 w = (evs, w1)"
    by (cases "retries sc req (take m script) draws 0 w") auto
  have sl: "sleeps evs = map (\<lambda>i. backoff sc i (draws i)) [1 ..< Suc m]"
    using sleeps_retries [of sc req "take m script" draws 0 w] rt len by (simp del: upt_Suc)
  have step: "get_loop sc req (script ! m # drop (Suc m) script) draws m (elapsed_after sc draws m) w1
         = (Some (Inl e), fst (snd (request_attempt sc req (script ! m) w1)),
            snd (snd (request_attempt sc req (script ! m) w1)))"
    using m1 e(2) by (simp add: get_loop_raise [OF e(1)] del: get_loop.simps)
  have run: "get_loop sc req (take m script @ script ! m # drop (Suc m) script) draws 0 0 w
         = (Some (Inl e), evs @ fst (snd (request_attempt sc req (script ! m) w1)),
            snd (snd (request_attempt sc req (script ! m) w1)))"
    using get_loop_run [OF f' w', of "script ! m # drop (Suc m) script" w] rt len step
    by (simp add: case_prod_beta del: get_loop.simps)
  have res: "get_loop sc req script draws 0 0 w
         = (Some (Inl e), evs @ fst (snd (request_attempt sc req (script ! m) w1)),
            snd (snd (request_attempt sc req (script ! m) w1)))"
    using run split by metis
  show ?thesis
    using e(1) res sl by (simp add: sleeps_append request_attempt_no_sleep del: upt_Suc)
qed

lemma get_loop_still_retrying:
  assumes fails: "\<forall>a \<in> set script. \<exists>e. issue_request sc req (snd a) = Inl e
             \<and> caught_by (retry_exceptions sc) e"
      and within: "\<forall>k < length script. elapsed_after sc draws k \<le> stop_after_waiting sc"
  shows "fst (get_loop sc req script draws 0 0 w) = None
         \<and> sleeps (fst (snd (get_loop sc req script draws 0 0 w)))
               = map (\<lambda>i. backoff sc i (draws i)) [1 ..< Suc (length script)]"
proof -
  have w': "\<forall>j < length script. elapsed_after sc draws (0 + j) \<le> stop_after_waiting sc"
    using within by simp
  obtain evs w1 where rt: "retries sc req script draws 0 w = (evs, w1)"
    by (cases "retries sc req script draws 0 w") auto
  have sl: "sleeps evs = map (\<lambda>i. backoff sc i (draws i)) [1 ..< Suc (length script)]"
    using sleeps_retries [of sc req script draws 0 w] rt by (simp del: upt_Suc)
  have "get_loop sc req script draws 0 0 w = (None, evs, w1)"
    using get_loop_run [OF fails w', of "[]" w] rt by simp
  with sl show ?thesis by simp
qed

lemma get_loop_reraises:
  assumes fails: "\<forall>a \<in> set script. \<exists>e. issue_request sc req (snd a) = Inl e
             \<and> caught_by (retry_exceptions sc) e"
      and k: "k < length script" "stop_after_waiting sc < elapsed_after sc draws k"
  shows "\<exists>e. fst (get_loop sc req script draws 0 0 w) = Some (Inl e)"
proof -
  define m where "m = (LEAST i. stop_after_waiting sc < elapsed_after sc draws i)"
  have m1: "stop_after_waiting sc < elapsed_after sc draws m"
    unfolding m_def using k(2) by (rule LeastI)
  have m2: "m \<le> k" unfolding m_def using k(2) by (rule Least_le)
  have m3: "\<forall>j < m. elapsed_after sc draws j \<le> stop_after_waiting sc"
  proof (intro allI impI)
    fix j assume "j < m"
    then have "\<not> stop_after_waiting sc < elapsed_after sc draws j"
      unfolding m_def by (rule not_less_Least)
    then show "elapsed_after sc draws j \<le> stop_after_waiting sc" by simp
  qed
  have ml: "m < length script" using m2 k(1) by simp
  from get_loop_reraise_at [OF fails ml m1 m3, of w] show ?thesis by auto
qed

text \<open>
  Claim C1, as the code has it. \<open>elapsed\<close> in \<open>get\<close> is the sum of the backoff waits
  that the call has slept so far, not the wall-clock time since the first attempt (the
  time the requests themselves take is not counted). For a fetch that keeps failing with
  retryable failures: the failure of attempt \<open>k\<close> is re-raised exactly when that sum first
  exceeds the ceiling there, each earlier failure having been followed by one backoff
  wait and a retry; while the sum stays within the ceiling the call keeps waiting and
  retrying. With a base of at least 1, non-negative extra jitter and non-negative draws
  every wait is at least \<open>min (1/2) max_wait\<close>, so the failure is re-raised once the
  network has been tried often enough.
\<close>

theorem get_reraises_once_waits_exceed_ceiling:
  assumes net: "req_method req \<noteq> ''open''"
      and fails: "\<forall>a \<in> set script. \<exists>e. issue_request sc req (snd a) = Inl e
             \<and> caught_by (retry_exceptions sc) e"
  shows "(\<forall>k < length script.
            (\<forall>j < k. elapsed_after sc draws j \<le> stop_after_waiting sc)
            \<and> stop_after_waiting sc < elapsed_after sc draws k \<longrightarrow>
            fst (get sc req script draws w) = Some (issue_request sc req (snd (script ! k)))
            \<and> (\<exists>e. issue_request sc req (snd (script ! k)) = Inl e)
            \<and> sleeps (fst (snd (get sc req script draws w)))
                = map (\<lambda>i. backoff sc i (draws i)) [1 ..< Suc k])
         \<and> ((\<forall>k < length script. elapsed_after sc draws k \<le> stop_after_waiting sc) \<longrightarrow>
            fst (get sc req script draws w) = None
            \<and> sleeps (fst (snd (get sc req script draws w)))
                = map (\<lambda>i. backoff sc i (draws i)) [1 ..< Suc (length script)])
         \<and> (\<forall>k. elapsed_after sc draws k
                  = sum_list (map (\<lambda>i. backoff sc i (draws i)) [1 ..< Suc k]))
         \<and> (1 \<le> wait_base sc \<and> 0 \<le> max_extra_jitter sc
              \<and> (\<forall>n. 0 \<le> fst (draws n) \<and> 0 \<le> snd (draws n))
              \<and> (\<exists>k < length script. stop_after_waiting sc < real k * min (1/2) (max_wait sc))
              \<longrightarrow> (\<exists>e. fst (get sc req script draws w) = Some (Inl e)))"
proof -
  have g: "get sc req script draws w = get_loop sc req script draws 0 0 w"
    using net by (simp add: get_def)
  have a: "\<forall>k < length script.
            (\<forall>j < k. elapsed_after sc draws j \<le> stop_after_waiting sc)
            \<and> stop_after_waiting sc < elapsed_after sc draws k \<longrightarrow>
            fst (get sc req script draws w) = Some (issue_request sc req (snd (script ! k)))
            \<and> (\<exists>e. issue_request sc req (snd (script ! k)) = Inl e)
            \<and> sleeps (fst (snd (get sc req script draws w)))
                = map (\<lambda>i. backoff sc i (draws i)) [1 ..< Suc k]"
    unfolding g using get_loop_reraise_at [OF fails, of _ draws w] by blast
  have b: "(\<forall>k < length script. elapsed_after sc draws k \<le> stop_after_waiting sc) \<longrightarrow>
            fst (get sc req script draws w) = None
            \<and> sleeps (fst (snd (get sc req script draws w)))
                = map (\<lambda>i. backoff sc i (draws i)) [1 ..< Suc (length script)]"
    unfolding g using get_loop_still_retrying [OF fails, of draws w] by blast
  have c: "\<forall>k. elapsed_after sc draws k
                  = sum_list (map (\<lambda>i. backoff sc i (draws i)) [1 ..< Suc k])"
    using elapsed_after_sum by blast
  have d: "1 \<le> wait_base sc \<and> 0 \<le> max_extra_jitter sc
              \<and> (\<forall>n. 0 \<le> fst (draws n) \<and> 0 \<le> snd (draws n))
              \<and> (\<exists>k < length script. stop_after_waiting sc < real k * min (1/2) (max_wait sc))
              \<longrightarrow> (\<exists>e. fst (get sc req script draws w) = Some (Inl e))"
  proof
    assume h: "1 \<le> wait_base sc \<and> 0 \<le> max_extra_jitter sc
              \<and> (\<forall>n. 0 \<le> fst (draws n) \<and> 0 \<le> snd (draws n))
              \<and> (\<exists>k < length script. stop_after_waiting sc < real k * min (1/2) (max_wait sc))"
    then obtain k where k: "k < length script"
        "stop_after_waiting sc < real k * min (1/2) (max_wait sc)" by blast
    have "real k * min (1/2) (max_wait sc) \<le> elapsed_after sc draws k"
      using elapsed_after_lower [of sc draws k] h by blast
    with k(2) have "stop_after_waiting sc < elapsed_after sc draws k" by linarith
    from get_loop_reraises [OF fails k(1) this, of w]
    show "\<exists>e. fst (get sc req script draws w) = Some (Inl e)" unfolding g .
  qed
  from a b c d show ?thesis by blast
qed


theorem get_reraises_once_waits_exceed_ceiling_witness:
  "req_method example_request \<noteq> ''open''
   \<and> issue_request (default_scraper\<lparr>stop_after_waiting := 1\<rparr>) example_request
         (snd (2 :: real, Net_raise (Exc TimeoutError None ''timed out'')))
       = Inl (Exc TimeoutError None ''timed out'')
   \<and> caught_by (retry_exceptions (default_scraper\<lparr>stop_after_waiting := 1\<rparr>))
         (Exc TimeoutError None ''timed out'')
   \<and> elapsed_after (default_scraper\<lparr>stop_after_waiting := 1\<rparr>) (\<lambda>n. (0, 0)) 1 = 5 / 8
   \<and> elapsed_after (default_scraper\<lparr>stop_after_waiting := 1\<rparr>) (\<lambda>n. (0, 0)) 2 = 45 / 32
   \<and> fst (get (default_scraper\<lparr>stop_after_waiting := 1\<rparr>) example_request
             (replicate 4 (2, Net_raise (Exc TimeoutError None ''timed out'')))
             (\<lambda>n. (0, 0)) start_world)
       = Some (Inl (Exc TimeoutError None ''timed out''))
   \<and> sleeps (fst (snd (get (default_scraper\<lparr>stop_after_waiting := 1\<rparr>) example_request
             (replicate 4 (2, Net_raise (Exc TimeoutError None ''timed out'')))
             (\<lambda>n. (0, 0)) start_world)))
       = [5 / 8, 25 / 32]
   \<and> fst (get (default_scraper\<lparr>stop_after_waiting := 1\<rparr>) example_request
             (replicate 1 (2, Net_raise (Exc TimeoutError None ''timed out'')))
             (\<lambda>n. (0, 0)) start_world)
       = None
   \<and> sleeps (fst (snd (get (default_scraper\<lparr>stop_after_waiting := 1\<rparr>) example_request
             (replicate 1 (2, Net_raise (Exc TimeoutError None ''timed out'')))
             (\<lambda>n. (0, 0)) start_world)))
       = [5 / 8]
   \<and> 1 \<le> wait_base (default_scraper\<lparr>stop_after_waiting := 1\<rparr>)
   \<and> 0 \<le> max_extra_jitter (default_scraper\<lparr>stop_after_waiting := 1\<rparr>)
   \<and> (\<exists>k < length (replicate 4 (2 :: real, Net_raise (Exc TimeoutError None ''timed out''))).
         stop_after_waiting (default_scraper\<lparr>stop_after_waiting := 1\<rparr>)
           < real k * min (1/2) (max_wait (default_scraper\<lparr>stop_after_waiting := 1\<rparr>)))"
proof -
  let ?sc = "default_scraper\<lparr>stop_after_waiting := 1\<rparr>"
  let ?a = "(2 :: real, Net_raise (Exc TimeoutError None ''timed out''))"
  let ?dr = "\<lambda>n::nat. (0 :: real, 0 :: real)"
  have cfg: "stop_after_waiting ?sc = 1" "max_wait ?sc = 150" "wait_base ?sc = 5 / 4"
      "max_extra_jitter ?sc = 1 / 20" "retry_exceptions ?sc = default_retry_exceptions"
    by (simp_all add: default_scraper_def Scraper_init_def)
  have ev: "backoff ?sc (Suc 0) (0, 0) = 5 / 8" "backoff ?sc (Suc (Suc 0)) (0, 0) = 25 / 32"
    by (simp_all add: cfg backoff_def raw_wait_def jitter_def extra_jitter_def uniform_def
        Let_def power_divide)
  have el: "elapsed_after ?sc ?dr 0 = 0" "elapsed_after ?sc ?dr (Suc 0) = 5 / 8"
      "elapsed_after ?sc ?dr (Suc (Suc 0)) = 45 / 32"
    by (simp_all add: ev)
  have net: "req_method example_request \<noteq> ''open''" by (simp add: example_request_def)
  have iss: "issue_request ?sc example_request (Net_raise (Exc TimeoutError None ''timed out''))
      = Inl (Exc TimeoutError None ''timed out'')"
    by (simp add: issue_request_def)
  have cb: "caught_by (retry_exceptions ?sc) (Exc TimeoutError None ''timed out'')"
    by (simp add: cfg caught_by_def default_retry_exceptions_def issubclass_def)
  have f4: "\<forall>a \<in> set (replicate 4 ?a). \<exists>e. issue_request ?sc example_request (snd a) = Inl e
          \<and> caught_by (retry_exceptions ?sc) e"
    using iss cb by simp
  have f1: "\<forall>a \<in> set (replicate 1 ?a). \<exists>e. issue_request ?sc example_request (snd a) = Inl e
          \<and> caught_by (retry_exceptions ?sc) e"
    using iss cb by simp
  note t4 = get_reraises_once_waits_exceed_ceiling [OF net f4, of ?dr start_world]
  note t1 = get_reraises_once_waits_exceed_ceiling [OF net f1, of ?dr start_world]
  have w2: "(\<forall>j < Suc (Suc 0). elapsed_after ?sc ?dr j \<le> stop_after_waiting ?sc)
      \<and> stop_after_waiting ?sc < elapsed_after ?sc ?dr (Suc (Suc 0))"
    by (simp add: el cfg All_less_Suc del: elapsed_after.simps)
  have k2: "Suc (Suc 0) < length (replicate 4 ?a)" by simp
  have r4: "fst (get ?sc example_request (replicate 4 ?a) ?dr start_world)
              = Some (issue_request ?sc example_request (snd (replicate 4 ?a ! Suc (Suc 0))))
            \<and> (\<exists>e. issue_request ?sc example_request (snd (replicate 4 ?a ! Suc (Suc 0))) = Inl e)
            \<and> sleeps (fst (snd (get ?sc example_request (replicate 4 ?a) ?dr start_world)))
              = map (\<lambda>i. backoff ?sc i (?dr i)) [1 ..< Suc (Suc (Suc 0))]"
    using t4 k2 w2 by blast
  have w1: "\<forall>k < length (replicate 1 ?a). elapsed_after ?sc ?dr k \<le> stop_after_waiting ?sc"
    by (simp add: el cfg)
  have r1: "fst (get ?sc example_request (replicate 1 ?a) ?dr start_world) = None
            \<and> sleeps (fst (snd (get ?sc example_request (replicate 1 ?a) ?dr start_world)))
              = map (\<lambda>i. backoff ?sc i (?dr i)) [1 ..< Suc (length (replicate 1 ?a))]"
    using t1 w1 by blast
  have k3: "\<exists>k < length (replicate 4 ?a). stop_after_waiting ?sc < real k * min (1/2) (max_wait ?sc)"
    by (rule exI [of _ 3]) (simp add: cfg)
  have u: "[Suc 0 ..< Suc (Suc (Suc 0))] = [Suc 0, Suc (Suc 0)]" "[Suc 0 ..< Suc (Suc 0)] = [Suc 0]"
    by (simp_all add: upt_rec)
  have n2: "(2::nat) = Suc (Suc 0)" by simp
  show ?thesis
    using net f4 r4 r1 k3
    by (simp add: iss ev el cfg u n2 del: elapsed_after.simps replicate.simps upt_Suc)
qed

text \<open>
  With wall-clock time for \<open>elapsed\<close> the claim fails: a first attempt that times out
  after 1000 seconds leaves the call 1000 seconds after its first attempt, beyond the
  ceiling of 900, yet the failure is not re-raised: the call sleeps and retries, and
  returns the response of the second attempt.
\<close>

theorem get_wall_clock_counterexample:
  "stop_after_waiting default_scraper
     < now (snd (snd (request_attempt default_scraper example_request
              (1000, Net_raise (Exc TimeoutError None ''timed out'')) start_world)))
       - now start_world
   \<and> get default_scraper example_request
        [(1000, Net_raise (Exc TimeoutError None ''timed out'')),
         (1, Net_response 200 ''OK'' None (Inr ''body''))]
        (\<lambda>n. (0, 0)) start_world
      = (Some (Inr \<lparr> content = ''body'', text_encoding = ''utf-8'', content_type = None,
                      status = Some 200 \<rparr>),
         [Acquire, Session_open (Created 0), Send (Created 0) example_request,
          Session_close (Created 0), Release, Sleep (5 / 8),
          Acquire, Session_open (Created 1), Send (Created 1) example_request,
          Session_close (Created 1), Release],
         \<lparr> now = 1001 + 5 / 8, closed = {Created 1, Created 0}, fresh = 2, files = Map.empty \<rparr>)"
  by (simp add: get_def example_request_def default_scraper_def Scraper_init_def
      request_attempt_def usable_session_def issue_request_def enter_gate_def exit_gate_def
      caught_by_def issubclass_def default_retry_exceptions_def default_retry_statuses_def
      start_world_def backoff_def raw_wait_def jitter_def extra_jitter_def uniform_def Let_def)

section \<open>Properties of get: which failures are retried\<close>

lemma issue_request_status:
  assumes "issue_request sc req out = Inr resp"
  shows "\<exists>st. status resp = Some st \<and> st \<notin> set (retry_statuses sc)"
  using assms by (auto simp: issue_request_def split: net_outcome.splits if_splits sum.splits)

lemma get_loop_returned_status:
  "fst (get_loop sc req script draws n el w) = Some (Inr resp) \<Longrightarrow>
   \<exists>st. status resp = Some st \<and> st \<notin> set (retry_statuses sc)"
proof (induction script arbitrary: n el w)
  case Nil
  then show ?case by simp
next
  case (Cons a rest)
  show ?case
  proof (cases "issue_request sc req (snd a)")
    case (Inl e)
    show ?thesis
    proof (cases "caught_by (retry_exceptions sc) e \<and> \<not> el > stop_after_waiting sc")
      case True
      let ?w = "(snd (snd (request_attempt sc req a w)))
                  \<lparr>now := now (snd (snd (request_attempt sc req a w)))
                            + backoff sc (Suc n) (draws (Suc n))\<rparr>"
      have "fst (get_loop sc req (a # rest) draws n el w)
              = fst (get_loop sc req rest draws (Suc n) (el + backoff sc (Suc n) (draws (Suc n))) ?w)"
        using True by (simp add: get_loop_raise [OF Inl] case_prod_beta del: get_loop.simps)
      with Cons.prems have "fst (get_loop sc req rest draws (Suc n)
              (el + backoff sc (Suc n) (draws (Suc n))) ?w) = Some (Inr resp)" by simp
      then show ?thesis by (rule Cons.IH)
    next
      case False
      then have "fst (get_loop sc req (a # rest) draws n el w) = Some (Inl e)"
        by (auto simp add: get_loop_raise [OF Inl] simp del: get_loop.simps)
      with Cons.prems show ?thesis by simp
    qed
  next
    case (Inr resp')
    then have "fst (get_loop sc req (a # rest) draws n el w) = Some (Inr resp')"
      by (simp add: get_loop_return [OF Inr] del: get_loop.simps)
    with Cons.prems have "resp' = resp" by simp
    with Inr show ?thesis using issue_request_status by blast
  qed
qed

lemma get_run:
  assumes "req_method req \<noteq> ''open''"
      and "\<forall>a \<in> set fails. \<exists>e. issue_request sc req (snd a) = Inl e
             \<and> caught_by (retry_exceptions sc) e"
      and "\<forall>j < length fails. elapsed_after sc draws j \<le> stop_after_waiting sc"
  shows "get sc req (fails @ tail) draws w
         = (case retries sc req fails draws 0 w of
              (evs, w1) \<Rightarrow>
                (case get_loop sc req tail draws (length fails)
                        (elapsed_after sc draws (length fails)) w1 of
                   (r, evs', w2) \<Rightarrow> (r, evs @ evs', w2)))"
  using get_loop_run [of fails sc req draws 0 tail w] assms by (simp add: get_def)

text \<open>
  Claim C4, as the code has it. In a network fetch a response whose status is in the
  configured retry statuses is never returned: it becomes a \<open>ClientResponseError\<close>
  carrying that status, which then goes through the same \<^verbatim>\<open>except\<close> clause as any other
  exception. An exception that this clause catches (an instance of a class in the
  configured retry exceptions, as \<open>ClientResponseError\<close> is by default) is followed by one
  backoff wait and a retry while \<open>elapsed\<close> is within the ceiling; an exception that it
  does not catch propagates at its first occurrence, with no wait after it.
\<close>

theorem get_failure_dispatch:
  assumes net: "req_method req \<noteq> ''open''"
      and fails: "\<forall>b \<in> set fails. \<exists>e. issue_request sc req (snd b) = Inl e
             \<and> caught_by (retry_exceptions sc) e"
      and within: "\<forall>j < length fails. elapsed_after sc draws j \<le> stop_after_waiting sc"
  shows "(st \<in> set (retry_statuses sc) \<longrightarrow>
            issue_request sc req (Net_response st reason ctype body)
              = Inl (Exc ClientResponseError (Some st) reason))
         \<and> (\<forall>resp. fst (get sc req script draws w) = Some (Inr resp) \<longrightarrow>
              (\<exists>st'. status resp = Some st' \<and> st' \<notin> set (retry_statuses sc)))
         \<and> (issue_request sc req (snd a) = Inl e \<and> \<not> caught_by (retry_exceptions sc) e \<longrightarrow>
              fst (get sc req (fails @ a # rest) draws w) = Some (Inl e)
              \<and> sleeps (fst (snd (get sc req (fails @ a # rest) draws w)))
                  = map (\<lambda>i. backoff sc i (draws i)) [1 ..< Suc (length fails)])
         \<and> (issue_request sc req (snd a') = Inl e' \<and> caught_by (retry_exceptions sc) e'
              \<and> elapsed_after sc draws (length fails) \<le> stop_after_waiting sc \<longrightarrow>
              get sc req (fails @ a' # rest) draws w
                = (case retries sc req (fails @ [a']) draws 0 w of
                     (evs, w1) \<Rightarrow>
                       (case get_loop sc req rest draws (Suc (length fails))
                               (elapsed_after sc draws (Suc (length fails))) w1 of
                          (r, evs', w2) \<Rightarrow> (r, evs @ evs', w2)))
              \<and> sleeps (fst (retries sc req (fails @ [a']) draws 0 w))
                  = map (\<lambda>i. backoff sc i (draws i)) [1 ..< Suc (Suc (length fails))])"
proof -
  have p1: "st \<in> set (retry_statuses sc) \<longrightarrow>
            issue_request sc req (Net_response st reason ctype body)
              = Inl (Exc ClientResponseError (Some st) reason)"
    by (simp add: issue_request_def)
  have p2: "\<forall>resp. fst (get sc req script draws w) = Some (Inr resp) \<longrightarrow>
              (\<exists>st'. status resp = Some st' \<and> st' \<notin> set (retry_statuses sc))"
    using net get_loop_returned_status [of sc req script draws 0 0 w] by (simp add: get_def)
  have p3: "issue_request sc req (snd a) = Inl e \<and> \<not> caught_by (retry_exceptions sc) e \<longrightarrow>
              fst (get sc req (fails @ a # rest) draws w) = Some (Inl e)
              \<and> sleeps (fst (snd (get sc req (fails @ a # rest) draws w)))
                  = map (\<lambda>i. backoff sc i (draws i)) [1 ..< Suc (length fails)]"
  proof
    assume h: "issue_request sc req (snd a) = Inl e \<and> \<not> caught_by (retry_exceptions sc) e"
    obtain evs w1 where rt: "retries sc req fails draws 0 w = (evs, w1)"
      by (cases "retries sc req fails draws 0 w") auto
    have sl: "sleeps evs = map (\<lambda>i. backoff sc i (draws i)) [1 ..< Suc (length fails)]"
      using sleeps_retries [of sc req fails draws 0 w] rt by (simp del: upt_Suc)
    have step: "get_loop sc req (a # rest) draws (length fails)
                  (elapsed_after sc draws (length fails)) w1
         = (Some (Inl e), fst (snd (request_attempt sc req a w1)),
            snd (snd (request_attempt sc req a w1)))"
      using h by (simp add: get_loop_raise [of sc req a e] del: get_loop.simps)
    have "get sc req (fails @ a # rest) draws w
         = (Some (Inl e), evs @ fst (snd (request_attempt sc req a w1)),
            snd (snd (request_attempt sc req a w1)))"
      using get_run [OF net fails within, of "a # rest" w] rt step
      by (simp add: case_prod_beta del: get_loop.simps)
    then show "fst (get sc req (fails @ a # rest) draws w) = Some (Inl e)
              \<and> sleeps (fst (snd (get sc req (fails @ a # rest) draws w)))
                  = map (\<lambda>i. backoff sc i (draws i)) [1 ..< Suc (length fails)]"
      using sl by (simp add: sleeps_append request_attempt_no_sleep del: upt_Suc)
  qed
  have p4: "issue_request sc req (snd a') = Inl e' \<and> caught_by (retry_exceptions sc) e'
              \<and> elapsed_after sc draws (length fails) \<le> stop_after_waiting sc \<longrightarrow>
              get sc req (fails @ a' # rest) draws w
                = (case retries sc req (fails @ [a']) draws 0 w of
                     (evs, w1) \<Rightarrow>
                       (case get_loop sc req rest draws (Suc (length fails))
                               (elapsed_after sc draws (Suc (length fails))) w1 of
                          (r, evs', w2) \<Rightarrow> (r, evs @ evs', w2)))
              \<and> sleeps (fst (retries sc req (fails @ [a']) draws 0 w))
                  = map (\<lambda>i. backoff sc i (draws i)) [1 ..< Suc (Suc (length fails))]"
  proof
    assume h: "issue_request sc req (snd a') = Inl e' \<and> caught_by (retry_exceptions sc) e'
              \<and> elapsed_after sc draws (length fails) \<le> stop_after_waiting sc"
    have f': "\<forall>b \<in> set (fails @ [a']). \<exists>e. issue_request sc req (snd b) = Inl e
             \<and> caught_by (retry_exceptions sc) e"
      using fails h by auto
    have w': "\<forall>j < length (fails @ [a']). elapsed_after sc draws j \<le> stop_after_waiting sc"
      using within h by (auto simp: less_Suc_eq)
    have "get sc req ((fails @ [a']) @ rest) draws w
                = (case retries sc req (fails @ [a']) draws 0 w of
                     (evs, w1) \<Rightarrow>
                       (case get_loop sc req rest draws (length (fails @ [a']))
                               (elapsed_after sc draws (length (fails @ [a']))) w1 of
                          (r, evs', w2) \<Rightarrow> (r, evs @ evs', w2)))"
      by (rule get_run [OF net f' w'])
    moreover have "sleeps (fst (retries sc req (fails @ [a']) draws 0 w))
                  = map (\<lambda>i. backoff sc i (draws i)) [1 ..< Suc (Suc (length fails))]"
      using sleeps_retries [of sc req "fails @ [a']" draws 0 w] by (simp del: upt_Suc)
    ultimately show "get sc req (fails @ a' # rest) draws w
                = (case retries sc req (fails @ [a']) draws 0 w of
                     (evs, w1) \<Rightarrow>
                       (case get_loop sc req rest draws (Suc (length fails))
                               (elapsed_after sc draws (Suc (length fails))) w1 of
                          (r, evs', w2) \<Rightarrow> (r, evs @ evs', w2)))
              \<and> sleeps (fst (retries sc req (fails @ [a']) draws 0 w))
                  = map (\<lambda>i. backoff sc i (draws i)) [1 ..< Suc (Suc (length fails))]"
      by (simp del: upt_Suc elapsed_after.simps)
  qed
  from p1 p2 p3 p4 show ?thesis by blast
qed

text \<open>
  A retry status is not retried whatever the configuration: with \<open>retry_exceptions\<close> set
  to \<open>TimeoutError\<close> alone, a 429 response is raised to the caller at once, without any
  wait, although 429 is in the retry statuses and a later attempt would have succeeded.
\<close>

theorem get_retry_status_counterexample:
  "get (Scraper_init None None [TimeoutError] [429]) example_request
     [(1, Net_response 429 ''Too Many Requests'' None (Inr ''slow down'')),
      (1, Net_response 200 ''OK'' None (Inr ''body''))]
     (\<lambda>n. (0, 0)) start_world
   = (Some (Inl (Exc ClientResponseError (Some 429) ''Too Many Requests'')),
      [Acquire, Session_open (Created 0), Send (Created 0) example_request,
       Session_close (Created 0), Release],
      \<lparr> now = 1, closed = {Created 0}, fresh = 1, files = Map.empty \<rparr>)"
  by (simp add: get_def example_request_def Scraper_init_def
      request_attempt_def usable_session_def issue_request_def enter_gate_def exit_gate_def
      caught_by_def issubclass_def start_world_def Let_def)


theorem get_failure_dispatch_witness:
  "req_method example_request \<noteq> ''open''
   \<and> caught_by (retry_exceptions default_scraper)
         (Exc ClientResponseError (Some 429) ''Too Many Requests'')
   \<and> elapsed_after default_scraper (\<lambda>n. (0, 0)) 0 \<le> stop_after_waiting default_scraper
   \<and> 429 \<in> set (retry_statuses default_scraper)
   \<and> issue_request default_scraper example_request
         (Net_response 429 ''Too Many Requests'' None (Inr ''slow down''))
       = Inl (Exc ClientResponseError (Some 429) ''Too Many Requests'')
   \<and> fst (get default_scraper example_request
         [(1, Net_response 429 ''Too Many Requests'' None (Inr ''slow down'')),
          (1, Net_response 200 ''OK'' None (Inr ''body''))] (\<lambda>n. (0, 0)) start_world)
       = Some (Inr \<lparr> content = ''body'', text_encoding = ''utf-8'', content_type = None,
                      status = Some 200 \<rparr>)
   \<and> (\<exists>st'. status \<lparr> content = ''body'', text_encoding = ''utf-8'', content_type = None,
                      status = Some 200 \<rparr> = Some st'
              \<and> st' \<notin> set (retry_statuses default_scraper))
   \<and> issue_request default_scraper example_request
         (snd (1 :: real, Net_raise (Exc ValueError None ''bad url''))) = Inl (Exc ValueError None ''bad url'')
   \<and> \<not> caught_by (retry_exceptions default_scraper) (Exc ValueError None ''bad url'')
   \<and> fst (get default_scraper example_request
         ([(1, Net_response 429 ''Too Many Requests'' None (Inr ''slow down''))]
            @ (1, Net_raise (Exc ValueError None ''bad url'')) # []) (\<lambda>n. (0, 0)) start_world)
       = Some (Inl (Exc ValueError None ''bad url''))
   \<and> sleeps (fst (snd (get default_scraper example_request
         ([(1, Net_response 429 ''Too Many Requests'' None (Inr ''slow down''))]
            @ (1, Net_raise (Exc ValueError None ''bad url'')) # []) (\<lambda>n. (0, 0)) start_world)))
       = [5 / 8]
   \<and> issue_request default_scraper example_request
         (snd (1 :: real, Net_raise (Exc TimeoutError None ''timed out'')))
       = Inl (Exc TimeoutError None ''timed out'')
   \<and> caught_by (retry_exceptions default_scraper) (Exc TimeoutError None ''timed out'')
   \<and> elapsed_after default_scraper (\<lambda>n. (0, 0))
         (length [(1 :: real, Net_response 429 ''Too Many Requests'' None (Inr ''slow down''))])
       \<le> stop_after_waiting default_scraper
   \<and> sleeps (fst (retries default_scraper example_request
         ([(1, Net_response 429 ''Too Many Requests'' None (Inr ''slow down''))]
            @ [(1, Net_raise (Exc TimeoutError None ''timed out''))]) (\<lambda>n. (0, 0)) 0 start_world))
       = [5 / 8, 25 / 32]"
proof -
  let ?sc = default_scraper
  let ?f = "(1 :: real, Net_response 429 ''Too Many Requests'' None (Inr ''slow down''))"
  let ?dr = "\<lambda>n::nat. (0 :: real, 0 :: real)"
  have cfg: "stop_after_waiting ?sc = 900" "max_wait ?sc = 150" "wait_base ?sc = 5 / 4"
      "max_extra_jitter ?sc = 1 / 20" "retry_exceptions ?sc = default_retry_exceptions"
      "retry_statuses ?sc = [429]"
    by (simp_all add: default_scraper_def Scraper_init_def default_retry_statuses_def)
  have ev: "backoff ?sc (Suc 0) (0, 0) = 5 / 8" "backoff ?sc (Suc (Suc 0)) (0, 0) = 25 / 32"
    by (simp_all add: cfg backoff_def raw_wait_def jitter_def extra_jitter_def uniform_def
        Let_def power_divide)
  have net: "req_method example_request \<noteq> ''open''" by (simp add: example_request_def)
  have iss: "issue_request ?sc example_request
         (Net_response 429 ''Too Many Requests'' None (Inr ''slow down''))
       = Inl (Exc ClientResponseError (Some 429) ''Too Many Requests'')"
    by (simp add: issue_request_def cfg)
  have cb: "caught_by default_retry_exceptions (Exc ClientResponseError (Some 429) ''Too Many Requests'')"
      "caught_by default_retry_exceptions (Exc TimeoutError None ''timed out'')"
      "\<not> caught_by default_retry_exceptions (Exc ValueError None ''bad url'')"
    by (simp_all add: caught_by_def default_retry_exceptions_def issubclass_def)
  have fl: "\<forall>b \<in> set [?f]. \<exists>e. issue_request ?sc example_request (snd b) = Inl e
          \<and> caught_by (retry_exceptions ?sc) e"
    using iss cb by (simp add: cfg)
  have wi: "\<forall>j < length [?f]. elapsed_after ?sc ?dr j \<le> stop_after_waiting ?sc"
    by (simp add: cfg)
  have e1: "elapsed_after ?sc ?dr (Suc 0) = 5 / 8" by (simp add: ev)
  have u: "[Suc 0 ..< Suc (Suc (Suc 0))] = [Suc 0, Suc (Suc 0)]" "[Suc 0 ..< Suc (Suc 0)] = [Suc 0]"
    by (simp_all add: upt_rec)
  note t = get_failure_dispatch [OF net fl wi, where st = 429 and reason = "''Too Many Requests''"
      and ctype = None and body = "Inr ''slow down''"
      and script = "[?f, (1, Net_response 200 ''OK'' None (Inr ''body''))]" and w = start_world
      and a = "(1, Net_raise (Exc ValueError None ''bad url''))"
      and e = "Exc ValueError None ''bad url''" and rest = "[]"
      and a' = "(1, Net_raise (Exc TimeoutError None ''timed out''))"
      and e' = "Exc TimeoutError None ''timed out''"]
  have val: "fst (get ?sc example_request [?f, (1, Net_response 200 ''OK'' None (Inr ''body''))]
                ?dr start_world)
       = Some (Inr \<lparr> content = ''body'', text_encoding = ''utf-8'', content_type = None,
                      status = Some 200 \<rparr>)"
    by (simp add: get_def example_request_def default_scraper_def Scraper_init_def
      request_attempt_def usable_session_def issue_request_def enter_gate_def exit_gate_def
      caught_by_def issubclass_def default_retry_exceptions_def default_retry_statuses_def
      start_world_def Let_def)
  have is2: "issue_request ?sc example_request (Net_raise (Exc ValueError None ''bad url''))
       = Inl (Exc ValueError None ''bad url'')"
      "issue_request ?sc example_request (Net_raise (Exc TimeoutError None ''timed out''))
       = Inl (Exc TimeoutError None ''timed out'')"
    by (simp_all add: issue_request_def)
  show ?thesis
    using t val
    by (simp add: net iss is2 cb cfg ev u del: retries.simps upt_Suc)
qed

section \<open>Properties of get: sessions\<close>

lemma session_events_gates:
  "filter is_session_event (enter_gate g) = []" "filter is_session_event (exit_gate g) = []"
  by (simp_all add: enter_gate_def exit_gate_def split: gate.splits)

lemma gates_no_session_event:
  "ev \<in> set (enter_gate g) \<Longrightarrow> \<not> is_session_event ev"
  "ev \<in> set (exit_gate g) \<Longrightarrow> \<not> is_session_event ev"
  by (auto simp: enter_gate_def exit_gate_def split: gate.splits)

lemma usable_session_now [simp]: "usable_session sc (w\<lparr>now := t\<rparr>) = usable_session sc w"
  by (simp add: usable_session_def split: option.splits)

lemma get_loop_supplied_session:
  assumes "usable_session sc w = Some s"
      and "get_loop sc req script draws n el w = (r, evs, w')"
  shows "closed w' = closed w \<and> fresh w' = fresh w
         \<and> (\<forall>ev \<in> set evs. is_session_event ev \<longrightarrow> ev = Send s req)"
  using assms
proof (induction script arbitrary: n el w r evs w')
  case Nil
  then show ?case by simp
next
  case (Cons a rest)
  let ?w1 = "w\<lparr>now := now w + fst a\<rparr>"
  let ?evs1 = "enter_gate (semaphore sc) @ [Send s req] @ exit_gate (semaphore sc)"
  have ra: "request_attempt sc req a w = (issue_request sc req (snd a), ?evs1, ?w1)"
    using Cons.prems(1) by (simp add: request_attempt_def)
  have e1: "\<forall>ev \<in> set ?evs1. is_session_event ev \<longrightarrow> ev = Send s req"
    using gates_no_session_event by auto
  show ?case
  proof (cases "issue_request sc req (snd a)")
    case (Inr resp)
    with ra Cons.prems(2) have "evs = ?evs1" "w' = ?w1" by auto
    with e1 show ?thesis by simp
  next
    case (Inl e)
    show ?thesis
    proof (cases "caught_by (retry_exceptions sc) e \<and> \<not> el > stop_after_waiting sc")
      case False
      with ra Inl Cons.prems(2) have "evs = ?evs1" "w' = ?w1" by (auto split: if_splits)
      with e1 show ?thesis by simp
    next
      case True
      let ?wait = "backoff sc (Suc n) (draws (Suc n))"
      let ?w2 = "?w1\<lparr>now := now ?w1 + ?wait\<rparr>"
      obtain r2 evs2 w2 where rec: "get_loop sc req rest draws (Suc n) (el + ?wait) ?w2 = (r2, evs2, w2)"
        by (cases "get_loop sc req rest draws (Suc n) (el + ?wait) ?w2") auto
      have u: "usable_session sc ?w2 = Some s" using Cons.prems(1) by simp
      from Cons.IH [OF u rec] have ih: "closed w2 = closed w" "fresh w2 = fresh w"
          "\<forall>ev \<in> set evs2. is_session_event ev \<longrightarrow> ev = Send s req" by simp_all
      from ra Inl True rec Cons.prems(2) have "evs = ?evs1 @ [Sleep ?wait] @ evs2" "w' = w2"
        by (auto simp: Let_def)
      with ih e1 show ?thesis by auto
    qed
  qed
qed

lemma get_loop_created_sessions:
  assumes "usable_session sc w = None"
      and "get_loop sc req script draws n el w = (r, evs, w')"
  shows "fresh w \<le> fresh w'
         \<and> filter is_session_event evs
             = concat (map (\<lambda>i. [Session_open (Created i), Send (Created i) req,
                                  Session_close (Created i)]) [fresh w ..< fresh w'])
         \<and> closed w' = closed w \<union> Created ` {fresh w ..< fresh w'}"
  using assms
proof (induction script arbitrary: n el w r evs w')
  case Nil
  then show ?case by simp
next
  case (Cons a rest)
  let ?s = "Created (fresh w)"
  let ?w1 = "w\<lparr>now := now w + fst a, closed := insert ?s (closed w), fresh := Suc (fresh w)\<rparr>"
  let ?evs1 = "enter_gate (semaphore sc) @ [Session_open ?s, Send ?s req, Session_close ?s]
                 @ exit_gate (semaphore sc)"
  have ra: "request_attempt sc req a w = (issue_request sc req (snd a), ?evs1, ?w1)"
    using Cons.prems(1) by (simp add: request_attempt_def Let_def)
  have e1: "filter is_session_event ?evs1 = [Session_open ?s, Send ?s req, Session_close ?s]"
    by (simp add: session_events_gates)
  have one: "[fresh w ..< Suc (fresh w)] = [fresh w]" by simp
  have stop: "evs = ?evs1 \<Longrightarrow> w' = ?w1 \<Longrightarrow> ?case"
    using e1 by (simp add: session_events_gates)
  show ?case
  proof (cases "issue_request sc req (snd a)")
    case (Inr resp)
    with ra Cons.prems(2) have "evs = ?evs1" "w' = ?w1" by auto
    then show ?thesis by (rule stop)
  next
    case (Inl e)
    show ?thesis
    proof (cases "caught_by (retry_exceptions sc) e \<and> \<not> el > stop_after_waiting sc")
      case False
      with ra Inl Cons.prems(2) have "evs = ?evs1" "w' = ?w1" by (auto split: if_splits)
      then show ?thesis by (rule stop)
    next
      case True
      let ?wait = "backoff sc (Suc n) (draws (Suc n))"
      let ?w2 = "?w1\<lparr>now := now ?w1 + ?wait\<rparr>"
      obtain r2 evs2 w2 where rec: "get_loop sc req rest draws (Suc n) (el + ?wait) ?w2 = (r2, evs2, w2)"
        by (cases "get_loop sc req rest draws (Suc n) (el + ?wait) ?w2") auto
      have u: "usable_session sc ?w2 = None"
        using Cons.prems(1) by (auto simp: usable_session_def split: option.splits if_splits)
      from Cons.IH [OF u rec] have ih: "Suc (fresh w) \<le> fresh w2"
          "filter is_session_event evs2
             = concat (map (\<lambda>i. [Session_open (Created i), Send (Created i) req,
                                  Session_close (Created i)]) [Suc (fresh w) ..< fresh w2])"
          "closed w2 = insert ?s (closed w) \<union> Created ` {Suc (fresh w) ..< fresh w2}"
        by simp_all
      from ra Inl True rec Cons.prems(2) have ev: "evs = ?evs1 @ [Sleep ?wait] @ evs2" and w: "w' = w2"
        by (auto simp: Let_def)
      have up: "[fresh w ..< fresh w2] = fresh w # [Suc (fresh w) ..< fresh w2]"
        using ih(1) by (simp add: upt_conv_Cons)
      have st: "{fresh w ..< fresh w2} = insert (fresh w) {Suc (fresh w) ..< fresh w2}"
        using ih(1) by auto
      have c1: "fresh w \<le> fresh w'" using ih(1) w by simp
      have c2: "filter is_session_event evs
             = concat (map (\<lambda>i. [Session_open (Created i), Send (Created i) req,
                                  Session_close (Created i)]) [fresh w ..< fresh w'])"
        unfolding ev w up using ih(2) by (simp add: session_events_gates)
      have c3: "closed w' = closed w \<union> Created ` {fresh w ..< fresh w'}"
        unfolding w st using ih(3) by auto
      from c1 c2 c3 show ?thesis by blast
    qed
  qed
qed

text \<open>
  Claim C7. Over the network path of \<open>get\<close>: when the scraper holds a caller-supplied
  session that is not closed, every request goes through that session, no session is
  opened or closed, and the set of closed sessions is as it was. Otherwise every attempt
  opens a new session, sends its one request through it and closes it at once, whether
  the attempt returned or raised, so that every session the call created is closed when
  it ends. In both cases no caller-supplied session changes between open and closed.
\<close>

theorem get_session_ownership:
  assumes "req_method req \<noteq> ''open''" and "get sc req script draws w = (r, evs, w')"
  shows "(\<forall>s. session sc = Some s \<and> s \<notin> closed w \<longrightarrow>
            closed w' = closed w
            \<and> (\<forall>ev \<in> set evs. is_session_event ev \<longrightarrow> ev = Send s req))
         \<and> (session sc = None \<or> (\<exists>s. session sc = Some s \<and> s \<in> closed w) \<longrightarrow>
            filter is_session_event evs
              = concat (map (\<lambda>i. [Session_open (Created i), Send (Created i) req,
                                   Session_close (Created i)]) [fresh w ..< fresh w'])
            \<and> closed w' = closed w \<union> Created ` {fresh w ..< fresh w'})
         \<and> (\<forall>n. Supplied n \<in> closed w' \<longleftrightarrow> Supplied n \<in> closed w)"
proof -
  have g: "get_loop sc req script draws 0 0 w = (r, evs, w')"
    using assms by (simp add: get_def)
  have a: "\<forall>s. session sc = Some s \<and> s \<notin> closed w \<longrightarrow>
            closed w' = closed w
            \<and> (\<forall>ev \<in> set evs. is_session_event ev \<longrightarrow> ev = Send s req)"
  proof (intro allI impI)
    fix s assume "session sc = Some s \<and> s \<notin> closed w"
    then have "usable_session sc w = Some s" by (simp add: usable_session_def)
    from get_loop_supplied_session [OF this g]
    show "closed w' = closed w \<and> (\<forall>ev \<in> set evs. is_session_event ev \<longrightarrow> ev = Send s req)"
      by blast
  qed
  have b: "session sc = None \<or> (\<exists>s. session sc = Some s \<and> s \<in> closed w) \<longrightarrow>
            filter is_session_event evs
              = concat (map (\<lambda>i. [Session_open (Created i), Send (Created i) req,
                                   Session_close (Created i)]) [fresh w ..< fresh w'])
            \<and> closed w' = closed w \<union> Created ` {fresh w ..< fresh w'}"
  proof
    assume "session sc = None \<or> (\<exists>s. session sc = Some s \<and> s \<in> closed w)"
    then have "usable_session sc w = None" by (auto simp: usable_session_def)
    from get_loop_created_sessions [OF this g]
    show "filter is_session_event evs
              = concat (map (\<lambda>i. [Session_open (Created i), Send (Created i) req,
                                   Session_close (Created i)]) [fresh w ..< fresh w'])
            \<and> closed w' = closed w \<union> Created ` {fresh w ..< fresh w'}"
      by blast
  qed
  have c: "\<forall>n. Supplied n \<in> closed w' \<longleftrightarrow> Supplied n \<in> closed w"
  proof (cases "usable_session sc w")
    case None
    from get_loop_created_sessions [OF this g] show ?thesis by auto
  next
    case (Some s)
    from get_loop_supplied_session [OF this g] show ?thesis by auto
  qed
  from a b c show ?thesis by blast
qed


theorem get_session_ownership_witness:
  "req_method example_request \<noteq> ''open''
   \<and> session (Scraper_init None (Some (Supplied 0)) default_retry_exceptions default_retry_statuses)
       = Some (Supplied 0)
   \<and> Supplied 0 \<notin> closed start_world
   \<and> get (Scraper_init None (Some (Supplied 0)) default_retry_exceptions default_retry_statuses)
        example_request
        [(2, Net_raise (Exc TimeoutError None ''timed out'')),
         (1, Net_response 200 ''OK'' None (Inr ''body''))] (\<lambda>n. (0, 0)) start_world
      = (Some (Inr \<lparr> content = ''body'', text_encoding = ''utf-8'', content_type = None,
                      status = Some 200 \<rparr>),
         [Acquire, Send (Supplied 0) example_request, Release, Sleep (5 / 8),
          Acquire, Send (Supplied 0) example_request, Release],
         \<lparr> now = 3 + 5 / 8, closed = {}, fresh = 0, files = Map.empty \<rparr>)
   \<and> closed \<lparr> now = 3 + 5 / 8, closed = {}, fresh = 0, files = Map.empty \<rparr> = closed start_world
   \<and> filter is_session_event
         [Acquire, Send (Supplied 0) example_request, Release, Sleep (5 / 8),
          Acquire, Send (Supplied 0) example_request, Release]
       = [Send (Supplied 0) example_request, Send (Supplied 0) example_request]
   \<and> session default_scraper = None
   \<and> get default_scraper example_request
        [(2, Net_raise (Exc TimeoutError None ''timed out'')),
         (1, Net_response 200 ''OK'' None (Inr ''body''))] (\<lambda>n. (0, 0)) start_world
      = (Some (Inr \<lparr> content = ''body'', text_encoding = ''utf-8'', content_type = None,
                      status = Some 200 \<rparr>),
         [Acquire, Session_open (Created 0), Send (Created 0) example_request,
          Session_close (Created 0), Release, Sleep (5 / 8),
          Acquire, Session_open (Created 1), Send (Created 1) example_request,
          Session_close (Created 1), Release],
         \<lparr> now = 3 + 5 / 8, closed = {Created 1, Created 0}, fresh = 2, files = Map.empty \<rparr>)
   \<and> closed \<lparr> now = 3 + 5 / 8, closed = {Created 1, Created 0}, fresh = 2, files = Map.empty \<rparr>
       = closed start_world \<union> Created ` {fresh start_world ..<
             fresh \<lparr> now = 3 + 5 / 8, closed = {Created 1, Created 0}, fresh = 2, files = Map.empty \<rparr>}
   \<and> (\<forall>n. Supplied n \<in> closed \<lparr> now = 3 + 5 / 8, closed = {Created 1, Created 0}, fresh = 2,
                                     files = Map.empty \<rparr>
          \<longleftrightarrow> Supplied n \<in> closed start_world)"
proof -
  let ?sup = "Scraper_init None (Some (Supplied 0)) default_retry_exceptions default_retry_statuses"
  let ?script = "[(2 :: real, Net_raise (Exc TimeoutError None ''timed out'')),
         (1, Net_response 200 ''OK'' None (Inr ''body''))]"
  let ?dr = "\<lambda>n::nat. (0 :: real, 0 :: real)"
  let ?resp = "\<lparr> content = ''body'', text_encoding = ''utf-8'', content_type = None,
                      status = Some 200 \<rparr>"
  have net: "req_method example_request \<noteq> ''open''" by (simp add: example_request_def)
  have g1: "get ?sup example_request ?script ?dr start_world
      = (Some (Inr ?resp),
         [Acquire, Send (Supplied 0) example_request, Release, Sleep (5 / 8),
          Acquire, Send (Supplied 0) example_request, Release],
         \<lparr> now = 3 + 5 / 8, closed = {}, fresh = 0, files = Map.empty \<rparr>)"
    by (simp add: get_def example_request_def Scraper_init_def
      request_attempt_def usable_session_def issue_request_def enter_gate_def exit_gate_def
      caught_by_def issubclass_def default_retry_exceptions_def default_retry_statuses_def
      start_world_def backoff_def raw_wait_def jitter_def extra_jitter_def uniform_def Let_def)
  have g2: "get default_scraper example_request ?script ?dr start_world
      = (Some (Inr ?resp),
         [Acquire, Session_open (Created 0), Send (Created 0) example_request,
          Session_close (Created 0), Release, Sleep (5 / 8),
          Acquire, Session_open (Created 1), Send (Created 1) example_request,
          Session_close (Created 1), Release],
         \<lparr> now = 3 + 5 / 8, closed = {Created 1, Created 0}, fresh = 2, files = Map.empty \<rparr>)"
    by (simp add: get_def example_request_def default_scraper_def Scraper_init_def
      request_attempt_def usable_session_def issue_request_def enter_gate_def exit_gate_def
      caught_by_def issubclass_def default_retry_exceptions_def default_retry_statuses_def
      start_world_def backoff_def raw_wait_def jitter_def extra_jitter_def uniform_def Let_def)
  have s1: "session ?sup = Some (Supplied 0)" "Supplied 0 \<notin> closed start_world"
    by (simp_all add: Scraper_init_def start_world_def)
  have s2: "session default_scraper = None" by (simp add: default_scraper_def Scraper_init_def)
  note t1 = get_session_ownership [OF net g1]
  note t2 = get_session_ownership [OF net g2]
  from t1 s1 have r1: "closed \<lparr> now = 3 + 5 / 8, closed = {}, fresh = 0, files = Map.empty \<rparr>
        = closed start_world
      \<and> (\<forall>ev \<in> set [Acquire, Send (Supplied 0) example_request, Release, Sleep (5 / 8),
                    Acquire, Send (Supplied 0) example_request, Release].
         is_session_event ev \<longrightarrow> ev = Send (Supplied 0) example_request)"
    by blast
  from t2 s2 have r2: "closed \<lparr> now = 3 + 5 / 8, closed = {Created 1, Created 0}, fresh = 2,
                                 files = Map.empty \<rparr>
       = closed start_world \<union> Created ` {fresh start_world ..<
             fresh \<lparr> now = 3 + 5 / 8, closed = {Created 1, Created 0}, fresh = 2, files = Map.empty \<rparr>}
      \<and> (\<forall>n. Supplied n \<in> closed \<lparr> now = 3 + 5 / 8, closed = {Created 1, Created 0}, fresh = 2,
                                     files = Map.empty \<rparr>
          \<longleftrightarrow> Supplied n \<in> closed start_world)"
    by blast
  have f1: "filter is_session_event
         [Acquire, Send (Supplied 0) example_request, Release, Sleep (5 / 8),
          Acquire, Send (Supplied 0) example_request, Release]
       = [Send (Supplied 0) example_request, Send (Supplied 0) example_request]"
    by simp
  from net s1 s2 g1 g2 r1 r2 f1 show ?thesis by blast
qed

section \<open>Properties of get: local files\<close>

text \<open>
  Claim C5 fails on the code. For a request with method \<open>open\<close> on an existing file,
  whatever the retry settings, \<open>get\<close> acquires no permit, sends nothing, never sleeps
  and reads the file, but it then awaits the bytes that the built-in \<^verbatim>\<open>read\<close> returned:
  the call raises \<open>TypeError\<close> instead of returning the response.
\<close>

theorem get_open_awaits_plain_bytes:
  "get sc \<lparr> path = ''fixture.bin'', req_method = ''open'', encoding = ''latin-1'' \<rparr> script draws
       (start_world\<lparr>files := [''fixture.bin'' \<mapsto> ''abc'']\<rparr>)
     = (Some (Inl (Exc TypeError None ''object cannot be used in await expression'')),
        [Read_file ''fixture.bin''],
        start_world\<lparr>files := [''fixture.bin'' \<mapsto> ''abc'']\<rparr>)"
  by (simp add: get_def get_open_def read_binary_def await_def start_world_def)

section \<open>Properties of the source scrapers\<close>

text \<open>
  Claim C8 fails on the code. The High Court scraper takes the semaphore (of capacity 4)
  and leaves a \<^verbatim>\<open>nullcontext\<close> in its place, but its \<open>get_index\<close> never enters the
  taken semaphore: the index request is sent while no permit is held. The Federal
  Register scraper, built the same way, sends the same request inside the scope of the
  semaphore it took.
\<close>

theorem hca_get_index_outside_semaphore:
  "hca_get_index (HighCourtOfAustralia_init None None) findall_cases make_entry example_request
       [(1, Net_response 200 ''OK'' None (Inr ''page''))] draws start_world
     = (case collect make_entry
               (findall_cases \<lparr> content = ''page'', text_encoding = ''utf-8'',
                                content_type = None, status = Some 200 \<rparr>) of
          Inl e \<Rightarrow> Some (Inl e)
        | Inr entries \<Rightarrow> Some (Inr (set entries)),
        [Session_open (Created 0), Send (Created 0) example_request, Session_close (Created 0)],
        \<lparr> now = 1, closed = {Created 0}, fresh = 1, files = Map.empty \<rparr>)
   \<and> priv_semaphore (HighCourtOfAustralia_init None None) = Semaphore 4
   \<and> \<not> sends_guarded 0
         (fst (snd (hca_get_index (HighCourtOfAustralia_init None None) findall_cases make_entry
            example_request [(1, Net_response 200 ''OK'' None (Inr ''page''))] draws start_world)))
   \<and> fst (snd (frl_get_index (FederalRegisterOfLegislation_init None None) (\<lambda>resp. False)
            json_value make_item example_request
            [([(1, Net_response 200 ''OK'' None (Inr ''page''))], draws)] draws start_world))
       = [Acquire, Session_open (Created 0), Send (Created 0) example_request,
          Session_close (Created 0), Release]
   \<and> sends_guarded 0
         (fst (snd (frl_get_index (FederalRegisterOfLegislation_init None None) (\<lambda>resp. False)
            json_value make_item example_request
            [([(1, Net_response 200 ''OK'' None (Inr ''page''))], draws)] draws start_world)))"
  by (simp add: hca_get_index_def HighCourtOfAustralia_init_def get_def example_request_def
      frl_get_index_def frl_get_def FederalRegisterOfLegislation_init_def
      Scraper_init_def request_attempt_def usable_session_def issue_request_def enter_gate_def
      exit_gate_def default_retry_statuses_def start_world_def Let_def split: sum.splits)

lemma collect_nonempty: "collect f xs = Inr ys \<Longrightarrow> xs \<noteq> [] \<Longrightarrow> ys \<noteq> []"
  by (cases xs) (auto split: sum.splits)

text \<open>
  Claim C6, as the code has it. The \<open>get_index\<close> of the Federal Register scraper raises
  when the index response lists no entry, and never returns an empty set.
\<close>

theorem frl_get_index_raises_on_empty_index:
  "(frl_get sc unavailable req calls draws w = (Some (Inr resp), evs, w')
      \<and> json_value resp = Inr [] \<longrightarrow>
      fst (frl_get_index sc unavailable json_value make_entry req calls draws w)
        = Some (Inl (Exc Exception None ''No entries were found for the request'')))
   \<and> (\<forall>entries. fst (frl_get_index sc unavailable json_value make_entry req calls draws w)
          = Some (Inr entries) \<longrightarrow> entries \<noteq> {})"
proof -
  have a: "frl_get sc unavailable req calls draws w = (Some (Inr resp), evs, w')
      \<and> json_value resp = Inr [] \<longrightarrow>
      fst (frl_get_index sc unavailable json_value make_entry req calls draws w)
        = Some (Inl (Exc Exception None ''No entries were found for the request''))"
    by (simp add: frl_get_index_def)
  have b: "\<forall>entries. fst (frl_get_index sc unavailable json_value make_entry req calls draws w)
          = Some (Inr entries) \<longrightarrow> entries \<noteq> {}"
  proof (intro allI impI)
    fix entries
    assume h: "fst (frl_get_index sc unavailable json_value make_entry req calls draws w)
          = Some (Inr entries)"
    obtain r evs0 w0 where g: "frl_get sc unavailable req calls draws w = (r, evs0, w0)"
      by (cases "frl_get sc unavailable req calls draws w") auto
    from h g obtain resp0 items es where
      "json_value resp0 = Inr items" "length items \<noteq> 0" "collect make_entry items = Inr es"
      "entries = set es"
      by (auto simp: frl_get_index_def split: option.splits sum.splits if_splits)
    then show "entries \<noteq> {}" using collect_nonempty [of make_entry items es] by auto
  qed
  from a b show ?thesis by blast
qed

text \<open>
  The claim does not hold for every source: the \<open>get_index\<close> of the Western Australian
  scraper returns the empty set for an index page with a header row only, and that of
  the High Court scraper returns it for a page without any case link.
\<close>

theorem get_index_empty_counterexample:
  "wa_get_index (WesternAustralianLegislation_init None None) (\<lambda>p. False)
       (\<lambda>resp. [''<th>Title</th>''])
       (\<lambda>row type w. (Some (Inl (Exc Exception None ''no link in row'')), [], w))
       example_request [(1, Net_response 200 ''OK'' None (Inr ''<table>''))] (\<lambda>n. (0, 0)) start_world
     = (Some (Inr ({} :: nat set)),
        [Acquire, Session_open (Created 0), Send (Created 0) example_request,
         Session_close (Created 0), Release],
        \<lparr> now = 1, closed = {Created 0}, fresh = 1, files = Map.empty \<rparr>)
   \<and> hca_get_index (HighCourtOfAustralia_init None None) (\<lambda>resp. [])
       (\<lambda>m. Inl (Exc Exception None ''no title''))
       example_request [(1, Net_response 200 ''OK'' None (Inr ''<html>''))] (\<lambda>n. (0, 0)) start_world
     = (Some (Inr ({} :: nat set)),
        [Session_open (Created 0), Send (Created 0) example_request, Session_close (Created 0)],
        \<lparr> now = 1, closed = {Created 0}, fresh = 1, files = Map.empty \<rparr>)"
  by (simp add: wa_get_index_def hca_get_index_def WesternAustralianLegislation_init_def
      HighCourtOfAustralia_init_def get_def example_request_def
      Scraper_init_def request_attempt_def usable_session_def issue_request_def enter_gate_def
      exit_gate_def default_retry_statuses_def start_world_def Let_def)

theorem frl_get_index_raises_on_empty_index_witness:
  "frl_get (FederalRegisterOfLegislation_init None None) (\<lambda>resp. False) example_request
       [([(1, Net_response 200 ''OK'' None (Inr ''{value: []}''))], \<lambda>n. (0, 0))]
       (\<lambda>n. (0, 0)) start_world
     = (Some (Inr \<lparr> content = ''{value: []}'', text_encoding = ''utf-8'',
                     content_type = None, status = Some 200 \<rparr>),
        [Session_open (Created 0), Send (Created 0) example_request, Session_close (Created 0)],
        \<lparr> now = 1, closed = {Created 0}, fresh = 1, files = Map.empty \<rparr>)
   \<and> fst (frl_get_index (FederalRegisterOfLegislation_init None None) (\<lambda>resp. False)
            (\<lambda>resp. Inr ([] :: nat list)) (\<lambda>item. Inr item) example_request
            [([(1, Net_response 200 ''OK'' None (Inr ''{value: []}''))], \<lambda>n. (0, 0))]
            (\<lambda>n. (0, 0)) start_world)
       = Some (Inl (Exc Exception None ''No entries were found for the request''))
   \<and> fst (frl_get_index (FederalRegisterOfLegislation_init None None) (\<lambda>resp. False)
            (\<lambda>resp. Inr [3, 5 :: nat]) (\<lambda>item. Inr item) example_request
            [([(1, Net_response 200 ''OK'' None (Inr ''{value: [3, 5]}''))], \<lambda>n. (0, 0))]
            (\<lambda>n. (0, 0)) start_world)
       = Some (Inr {3, 5})
   \<and> {3, 5 :: nat} \<noteq> {}"
proof -
  let ?sc = "FederalRegisterOfLegislation_init None None"
  have g: "frl_get ?sc (\<lambda>resp. False) example_request
       [([(1, Net_response 200 ''OK'' None (Inr ''{value: []}''))], \<lambda>n. (0, 0))]
       (\<lambda>n. (0, 0)) start_world
     = (Some (Inr \<lparr> content = ''{value: []}'', text_encoding = ''utf-8'',
                     content_type = None, status = Some 200 \<rparr>),
        [Session_open (Created 0), Send (Created 0) example_request, Session_close (Created 0)],
        \<lparr> now = 1, closed = {Created 0}, fresh = 1, files = Map.empty \<rparr>)"
    by (simp add: frl_get_def FederalRegisterOfLegislation_init_def get_def example_request_def
      Scraper_init_def request_attempt_def usable_session_def issue_request_def enter_gate_def
      exit_gate_def default_retry_statuses_def start_world_def Let_def)
  have v: "fst (frl_get_index ?sc (\<lambda>resp. False)
            (\<lambda>resp. Inr [3, 5 :: nat]) (\<lambda>item. Inr item) example_request
            [([(1, Net_response 200 ''OK'' None (Inr ''{value: [3, 5]}''))], \<lambda>n. (0, 0))]
            (\<lambda>n. (0, 0)) start_world)
       = Some (Inr {3, 5})"
    by (simp add: frl_get_index_def frl_get_def FederalRegisterOfLegislation_init_def get_def
      example_request_def Scraper_init_def request_attempt_def usable_session_def
      issue_request_def enter_gate_def exit_gate_def default_retry_statuses_def start_world_def
      Let_def)
  note t1 = frl_get_index_raises_on_empty_index [where sc = ?sc and unavailable = "\<lambda>resp. False"
      and req = example_request
      and calls = "[([(1, Net_response 200 ''OK'' None (Inr ''{value: []}''))], \<lambda>n. (0, 0))]"
      and draws = "\<lambda>n. (0, 0)" and w = start_world
      and json_value = "\<lambda>resp. Inr ([] :: nat list)" and make_entry = "\<lambda>item. Inr item"
      and resp = "\<lparr> content = ''{value: []}'', text_encoding = ''utf-8'',
                     content_type = None, status = Some 200 \<rparr>"
      and evs = "[Session_open (Created 0), Send (Created 0) example_request, Session_close (Created 0)]"
      and w' = "\<lparr> now = 1, closed = {Created 0}, fresh = 1, files = Map.empty \<rparr>"]
  note t2 = frl_get_index_raises_on_empty_index [where sc = ?sc and unavailable = "\<lambda>resp. False"
      and req = example_request
      and calls = "[([(1, Net_response 200 ''OK'' None (Inr ''{value: [3, 5]}''))], \<lambda>n. (0, 0))]"
      and draws = "\<lambda>n. (0, 0)" and w = start_world
      and json_value = "\<lambda>resp. Inr [3, 5 :: nat]" and make_entry = "\<lambda>item. Inr item"]
  from t1 g have r1: "fst (frl_get_index ?sc (\<lambda>resp. False)
            (\<lambda>resp. Inr ([] :: nat list)) (\<lambda>item. Inr item) example_request
            [([(1, Net_response 200 ''OK'' None (Inr ''{value: []}''))], \<lambda>n. (0, 0))]
            (\<lambda>n. (0, 0)) start_world)
       = Some (Inl (Exc Exception None ''No entries were found for the request''))"
    by blast
  from t2 v have r2: "{3, 5 :: nat} \<noteq> {}" by blast
  from g r1 v r2 show ?thesis by blast
qed

section \<open>Properties of clean_text\<close>

lemma is_space_nl [simp]: "is_space 10" by (simp add: is_space_def)

lemma ws_to_end_all: "ws_to_end cs \<longleftrightarrow> list_all is_space cs"
  by (induction cs) auto

lemma split_nl_ne [simp]: "split_nl s \<noteq> []"
  by (induction s) (auto split: list.splits)

lemma join_split [simp]: "join_nl (split_nl s) = s"
proof (induction s)
  case Nil
  then show ?case by simp
next
  case (Cons c cs)
  obtain l ls where sp: "split_nl cs = l # ls" using split_nl_ne [of cs] by (cases "split_nl cs") auto
  show ?case
  proof (cases "c = 10")
    case True
    then show ?thesis using Cons sp by simp
  next
    case False
    then show ?thesis using Cons sp by (cases ls) auto
  qed
qed

lemma split_append: "split_nl (a @ 10 # b) = split_nl a @ split_nl b"
proof (induction a)
  case Nil
  then show ?case by simp
next
  case (Cons c a)
  obtain l ls where sp: "split_nl a = l # ls" using split_nl_ne [of a] by (cases "split_nl a") auto
  then show ?case using Cons by simp
qed

lemma split_no_nl: "10 \<notin> set s \<Longrightarrow> split_nl s = [s]"
  by (induction s) auto

lemma split_lines_no_nl: "l \<in> set (split_nl s) \<Longrightarrow> 10 \<notin> set l"
proof (induction s arbitrary: l)
  case Nil
  then show ?case by simp
next
  case (Cons c cs)
  obtain l' ls where sp: "split_nl cs = l' # ls" using split_nl_ne [of cs] by (cases "split_nl cs") auto
  show ?case
  proof (cases "c = 10")
    case True
    with Cons show ?thesis by auto
  next
    case False
    with Cons.prems sp have "l = c # l' \<or> l \<in> set ls" by auto
    then show ?thesis
    proof
      assume "l = c # l'"
      moreover have "10 \<notin> set l'" using Cons.IH [of l'] sp by simp
      ultimately show ?thesis using False by auto
    next
      assume "l \<in> set ls"
      then show ?thesis using Cons.IH [of l] sp by simp
    qed
  qed
qed

lemma split_lines_subset: "l \<in> set (split_nl s) \<Longrightarrow> set l \<subseteq> set s"
proof (induction s arbitrary: l)
  case Nil
  then show ?case by simp
next
  case (Cons c cs)
  obtain l' ls where sp: "split_nl cs = l' # ls" using split_nl_ne [of cs] by (cases "split_nl cs") auto
  show ?case
  proof (cases "c = 10")
    case True
    with Cons show ?thesis by auto
  next
    case False
    with Cons.prems sp have "l = c # l' \<or> l \<in> set ls" by auto
    then show ?thesis
    proof
      assume "l = c # l'"
      moreover have "set l' \<subseteq> set cs" using Cons.IH [of l'] sp by simp
      ultimately show ?thesis by auto
    next
      assume "l \<in> set ls"
      then show ?thesis using Cons.IH [of l] sp by auto
    qed
  qed
qed

lemma join_Cons: "ls \<noteq> [] \<Longrightarrow> join_nl (l # ls) = l @ 10 # join_nl ls"
  by (cases ls) auto

lemma split_join:
  "ls \<noteq> [] \<Longrightarrow> \<forall>l \<in> set ls. 10 \<notin> set l \<Longrightarrow> split_nl (join_nl ls) = ls"
proof (induction ls)
  case Nil
  then show ?case by simp
next
  case (Cons l ls)
  show ?case
  proof (cases "ls = []")
    case True
    then show ?thesis using Cons.prems by (simp add: split_no_nl)
  next
    case False
    then have "split_nl (join_nl (l # ls)) = split_nl l @ split_nl (join_nl ls)"
      by (simp add: join_Cons split_append)
    then show ?thesis using Cons False by (simp add: split_no_nl)
  qed
qed

lemma set_join: "set (join_nl ls) \<subseteq> \<Union> (set ` set ls) \<union> {10}"
  by (induction ls rule: join_nl.induct) auto

lemma set_sub_trailing: "set (sub_trailing_ws l) \<subseteq> set l"
  by (induction l) auto

lemma sub_trailing_empty: "sub_trailing_ws l = [] \<Longrightarrow> ws_to_end l"
  by (cases l) (auto split: if_splits)

lemma sub_trailing_no_trailing:
  "sub_trailing_ws l = [] \<or> \<not> is_space (last (sub_trailing_ws l))"
proof (induction l)
  case Nil
  then show ?case by simp
next
  case (Cons c cs)
  show ?case
  proof (cases "is_space c \<and> ws_to_end cs")
    case True
    then show ?thesis by simp
  next
    case False
    show ?thesis
    proof (cases "sub_trailing_ws cs = []")
      case True
      then have "ws_to_end cs" by (rule sub_trailing_empty)
      with False have "\<not> is_space c" by simp
      with False True show ?thesis by simp
    next
      case ne: False
      with Cons False show ?thesis by simp
    qed
  qed
qed

lemma sub_trailing_id: "l = [] \<or> \<not> is_space (last l) \<Longrightarrow> sub_trailing_ws l = l"
proof (induction l)
  case Nil
  then show ?case by simp
next
  case (Cons c cs)
  have "\<not> (is_space c \<and> ws_to_end cs)"
  proof
    assume h: "is_space c \<and> ws_to_end cs"
    then have "list_all is_space (c # cs)" by (simp add: ws_to_end_all)
    then have "is_space (last (c # cs))" by (metis last_in_set list.distinct(1) list_all_iff)
    with Cons.prems show False by simp
  qed
  moreover have "cs = [] \<or> \<not> is_space (last cs)" using Cons.prems by (cases cs) auto
  ultimately show ?case using Cons.IH by simp
qed


lemma match_ws_nl_Some:
  "match_ws_nl t = Some r \<Longrightarrow>
   \<exists>ws. t = ws @ 10 # r \<and> list_all is_space ws \<and> match_ws_nl r = None"
proof (induction t)
  case Nil
  then show ?case by simp
next
  case (Cons c cs)
  show ?case
  proof (cases "is_space c \<and> match_ws_nl cs \<noteq> None")
    case True
    then obtain r' where r': "match_ws_nl cs = Some r'" by auto
    with True Cons.prems have "r' = r" by simp
    with Cons.IH r' obtain ws where "cs = ws @ 10 # r" "list_all is_space ws" "match_ws_nl r = None"
      by blast
    with True show ?thesis by (intro exI [of _ "c # ws"]) simp
  next
    case False
    with Cons.prems have c: "c = 10" "r = cs" by (auto split: if_splits option.splits)
    have "match_ws_nl cs = None" using False c by simp
    with c show ?thesis by (intro exI [of _ "[]"]) simp
  qed
qed

lemma match_ws_nl_None:
  "match_ws_nl t = None \<longleftrightarrow> \<not> (\<exists>ws rest. t = ws @ 10 # rest \<and> list_all is_space ws)"
proof (induction t)
  case Nil
  then show ?case by simp
next
  case (Cons c cs)
  show ?case
  proof
    assume n: "match_ws_nl (c # cs) = None"
    then have c: "c \<noteq> 10" by (auto split: if_splits option.splits)
    show "\<not> (\<exists>ws rest. c # cs = ws @ 10 # rest \<and> list_all is_space ws)"
    proof
      assume "\<exists>ws rest. c # cs = ws @ 10 # rest \<and> list_all is_space ws"
      then obtain ws rest where h: "c # cs = ws @ 10 # rest" "list_all is_space ws" by blast
      with c obtain ws' where ws': "ws = c # ws'" by (cases ws) auto
      with h have "cs = ws' @ 10 # rest" "list_all is_space ws'" "is_space c" by auto
      with Cons.IH have "match_ws_nl cs \<noteq> None" by blast
      with \<open>is_space c\<close> n show False by (auto split: option.splits)
    qed
  next
    assume h: "\<not> (\<exists>ws rest. c # cs = ws @ 10 # rest \<and> list_all is_space ws)"
    have c: "c \<noteq> 10" using h by (auto dest: spec [of _ "[]"])
    have "is_space c \<Longrightarrow> match_ws_nl cs = None"
    proof -
      assume sp: "is_space c"
      have "\<not> (\<exists>ws rest. cs = ws @ 10 # rest \<and> list_all is_space ws)"
      proof
        assume "\<exists>ws rest. cs = ws @ 10 # rest \<and> list_all is_space ws"
        then obtain ws rest where "cs = ws @ 10 # rest" "list_all is_space ws" by blast
        then have "c # cs = (c # ws) @ 10 # rest \<and> list_all is_space (c # ws)" using sp by simp
        with h show False by blast
      qed
      with Cons.IH show ?thesis by blast
    qed
    with c show "match_ws_nl (c # cs) = None" by (auto split: option.splits)
  qed
qed

lemma sub_start_suffix:
  "sub_start t = t \<or> (\<exists>ws. t = ws @ 10 # sub_start t)"
  by (cases "match_ws_nl t") (auto simp: sub_start_def dest: match_ws_nl_Some)

lemma sub_start_no_match: "match_ws_nl (sub_start t) = None"
  by (cases "match_ws_nl t") (auto simp: sub_start_def dest: match_ws_nl_Some)

lemma sub_end_prefix: "sub_end t = t \<or> (\<exists>ws. t = sub_end t @ 10 # ws)"
proof (induction t)
  case Nil
  then show ?case by simp
next
  case (Cons c cs)
  show ?case
  proof (cases "c = 10 \<and> ws_to_end cs")
    case True
    then show ?thesis by simp
  next
    case False
    with Cons show ?thesis by auto
  qed
qed

lemma sub_end_all_space: "list_all is_space (sub_end cs) \<Longrightarrow> list_all is_space cs"
proof (induction cs)
  case Nil
  then show ?case by simp
next
  case (Cons c cs)
  show ?case
  proof (cases "c = 10 \<and> ws_to_end cs")
    case True
    then show ?thesis by (simp add: ws_to_end_all)
  next
    case False
    with Cons show ?thesis by auto
  qed
qed

lemma sub_end_no_match:
  "\<not> (\<exists>pre ws. sub_end t = pre @ 10 # ws \<and> list_all is_space ws)"
proof (induction t)
  case Nil
  then show ?case by simp
next
  case (Cons c cs)
  show ?case
  proof (cases "c = 10 \<and> ws_to_end cs")
    case True
    then show ?thesis by simp
  next
    case False
    show ?thesis
    proof
      assume "\<exists>pre ws. sub_end (c # cs) = pre @ 10 # ws \<and> list_all is_space ws"
      then obtain pre ws where h: "c # sub_end cs = pre @ 10 # ws" "list_all is_space ws"
        using False by auto
      show False
      proof (cases pre)
        case Nil
        with h have "c = 10" "sub_end cs = ws" by auto
        with h(2) have "list_all is_space cs" using sub_end_all_space by blast
        with \<open>c = 10\<close> False show False by (simp add: ws_to_end_all)
      next
        case (Cons p pre')
        with h have "sub_end cs = pre' @ 10 # ws" by simp
        with h(2) Cons.IH show False by blast
      qed
    qed
  qed
qed

lemma sub_end_id:
  "\<not> (\<exists>pre ws. t = pre @ 10 # ws \<and> list_all is_space ws) \<Longrightarrow> sub_end t = t"
proof (induction t)
  case Nil
  then show ?case by simp
next
  case (Cons c cs)
  have a: "\<not> (c = 10 \<and> ws_to_end cs)"
  proof
    assume "c = 10 \<and> ws_to_end cs"
    then have "c # cs = [] @ 10 # cs \<and> list_all is_space cs" by (simp add: ws_to_end_all)
    with Cons.prems show False by blast
  qed
  have "\<not> (\<exists>pre ws. cs = pre @ 10 # ws \<and> list_all is_space ws)"
  proof
    assume "\<exists>pre ws. cs = pre @ 10 # ws \<and> list_all is_space ws"
    then obtain pre ws where "cs = pre @ 10 # ws" "list_all is_space ws" by blast
    then have "c # cs = (c # pre) @ 10 # ws \<and> list_all is_space ws" by simp
    with Cons.prems show False by blast
  qed
  with Cons.IH a show ?case by simp
qed


lemma split_suffix_lines: "t = ws @ 10 # r \<Longrightarrow> set (split_nl r) \<subseteq> set (split_nl t)"
  by (simp add: split_append)

lemma split_prefix_lines: "t = p @ 10 # ws \<Longrightarrow> set (split_nl p) \<subseteq> set (split_nl t)"
  by (simp add: split_append)

lemma clean_text_unfold:
  "clean_text fix_text s False True True True
     = sub_end (sub_start (join_nl (map sub_trailing_ws
         (split_nl (remove_non_standard_control_chars (replace_nbsp s))))))"
  by (simp add: clean_text_def)

text \<open>
  Claim C10. For every string, \<open>clean_text\<close> with \<open>fix_encoding = False\<close> (the other
  options left at their default \<open>True\<close>) returns a string without non-breaking space and
  without the control characters \<^verbatim>\<open>\a \b \f \r \v\<close>, in which no line ends with
  whitespace, which neither begins with whitespace up to a newline nor ends with a newline
  followed by whitespace only; and cleaning the result again returns it unchanged.
\<close>

theorem clean_text_normal_form:
  assumes "t = clean_text fix_text s False True True True"
  shows "160 \<notin> set t
         \<and> set t \<inter> {7, 8, 12, 13, 11} = {}
         \<and> (\<forall>line \<in> set (split_nl t). line = [] \<or> \<not> is_space (last line))
         \<and> \<not> (\<exists>ws rest. t = ws @ 10 # rest \<and> list_all is_space ws)
         \<and> \<not> (\<exists>pre ws. t = pre @ 10 # ws \<and> list_all is_space ws)
         \<and> clean_text fix_text t False True True True = t"
proof -
  define u where "u = remove_non_standard_control_chars (replace_nbsp s)"
  define L where "L = map sub_trailing_ws (split_nl u)"
  define j where "j = join_nl L"
  define r where "r = sub_start j"
  have t: "t = sub_end r"
    using assms by (simp add: clean_text_unfold u_def L_def j_def r_def)
  have u_chars: "160 \<notin> set u" "set u \<inter> {7, 8, 12, 13, 11} = {}"
    by (auto simp: u_def remove_non_standard_control_chars_def replace_nbsp_def)
  have L_ne: "L \<noteq> []" by (simp add: L_def)
  have L_chars: "set l \<subseteq> set u" if "l \<in> set L" for l
    using that set_sub_trailing split_lines_subset by (fastforce simp: L_def)
  have L_nl: "\<forall>l \<in> set L. 10 \<notin> set l"
  proof
    fix l assume "l \<in> set L"
    then obtain l0 where l0: "l0 \<in> set (split_nl u)" "l = sub_trailing_ws l0" by (auto simp: L_def)
    then have "10 \<notin> set l0" using split_lines_no_nl by blast
    with l0(2) set_sub_trailing [of l0] show "10 \<notin> set l" by auto
  qed
  have L_trail: "\<forall>l \<in> set L. l = [] \<or> \<not> is_space (last l)"
    using sub_trailing_no_trailing by (auto simp: L_def)
  have j_lines: "split_nl j = L" unfolding j_def using L_ne L_nl by (rule split_join)
  have j_chars: "set j \<subseteq> set u \<union> {10}"
    using set_join [of L] L_chars by (auto simp: j_def)
  have r_j: "r = j \<or> (\<exists>ws. j = ws @ 10 # r)" unfolding r_def by (rule sub_start_suffix)
  have t_r: "t = r \<or> (\<exists>ws. r = t @ 10 # ws)" unfolding t by (rule sub_end_prefix)
  have r_chars: "set r \<subseteq> set j" using r_j by auto
  have t_chars: "set t \<subseteq> set r" using t_r by auto
  have r_lines: "set (split_nl r) \<subseteq> set (split_nl j)" using r_j split_suffix_lines by auto
  have t_lines: "set (split_nl t) \<subseteq> set (split_nl r)" using t_r split_prefix_lines by auto
  have tu: "set t \<subseteq> insert 10 (set u)" using t_chars r_chars j_chars by blast
  have p1: "160 \<notin> set t"
  proof
    assume "160 \<in> set t"
    with tu have "160 \<in> insert (10 :: nat) (set u)" by blast
    with u_chars(1) show False by simp
  qed
  have p2: "set t \<inter> {7, 8, 12, 13, 11} = {}"
  proof (rule ccontr)
    assume "set t \<inter> {7, 8, 12, 13, 11} \<noteq> {}"
    then obtain c where c: "c \<in> set t" "c \<in> {7, 8, 12, 13, 11}" by blast
    with tu have "c \<in> insert 10 (set u)" by blast
    with c(2) have "c \<in> set u" by auto
    with c(2) u_chars(2) show False by blast
  qed
  have p3: "\<forall>line \<in> set (split_nl t). line = [] \<or> \<not> is_space (last line)"
    using t_lines r_lines j_lines L_trail by blast
  have r_start: "\<not> (\<exists>ws rest. r = ws @ 10 # rest \<and> list_all is_space ws)"
    using sub_start_no_match [of j] match_ws_nl_None [of r] by (simp add: r_def)
  have p4: "\<not> (\<exists>ws rest. t = ws @ 10 # rest \<and> list_all is_space ws)"
  proof
    assume "\<exists>ws rest. t = ws @ 10 # rest \<and> list_all is_space ws"
    then obtain ws rest where h: "t = ws @ 10 # rest" "list_all is_space ws" by blast
    from t_r have "\<exists>rest'. r = ws @ 10 # rest'"
    proof
      assume "t = r" with h(1) show ?thesis by auto
    next
      assume "\<exists>ws'. r = t @ 10 # ws'"
      then obtain ws' where "r = t @ 10 # ws'" by blast
      with h(1) have "r = ws @ 10 # (rest @ 10 # ws')" by simp
      then show ?thesis by blast
    qed
    with h(2) r_start show False by blast
  qed
  have p5: "\<not> (\<exists>pre ws. t = pre @ 10 # ws \<and> list_all is_space ws)"
    unfolding t by (rule sub_end_no_match)
  have i1: "replace_nbsp t = t" using p1 by (auto simp: replace_nbsp_def intro: map_idI)
  have i2: "remove_non_standard_control_chars t = t"
    using p2 by (auto simp: remove_non_standard_control_chars_def filter_id_conv)
  have i3: "map sub_trailing_ws (split_nl t) = split_nl t"
    using p3 sub_trailing_id by (auto intro: map_idI)
  have i4: "sub_start t = t" using p4 match_ws_nl_None [of t] by (simp add: sub_start_def)
  have i5: "sub_end t = t" using p5 by (rule sub_end_id)
  have p6: "clean_text fix_text t False True True True = t"
    by (simp add: clean_text_unfold i1 i2 i3 i4 i5)
  from p1 p2 p3 p4 p5 p6 show ?thesis by blast
qed

theorem clean_text_normal_form_witness:
  "[32, 97, 32, 98] = clean_text (\<lambda>text. text) [32, 32, 10, 32, 97, 160, 98, 32, 13, 10, 10, 32]
       False True True True
   \<and> 160 \<notin> set [32, 97, 32, 98 :: nat]
   \<and> set [32, 97, 32, 98 :: nat] \<inter> {7, 8, 12, 13, 11} = {}
   \<and> split_nl [32, 97, 32, 98] = [[32, 97, 32, 98]]
   \<and> \<not> is_space (last [32, 97, 32, 98])
   \<and> \<not> (\<exists>ws rest. [32, 97, 32, 98] = ws @ 10 # rest \<and> list_all is_space ws)
   \<and> \<not> (\<exists>pre ws. [32, 97, 32, 98] = pre @ 10 # ws \<and> list_all is_space ws)
   \<and> clean_text (\<lambda>text. text) [32, 97, 32, 98] False True True True = [32, 97, 32, 98]"
proof -
  have e: "[32, 97, 32, 98] = clean_text (\<lambda>text. text)
       [32, 32, 10, 32, 97, 160, 98, 32, 13, 10, 10, 32] False True True True"
    by (simp add: clean_text_def replace_nbsp_def remove_non_standard_control_chars_def
        sub_start_def is_space_def)
  have l: "split_nl [32, 97, 32, 98] = [[32, 97, 32, 98]]" "\<not> is_space (last [32, 97, 32, 98])"
    by (simp_all add: is_space_def)
  from clean_text_normal_form [OF e] e l show ?thesis by simp
qed

end
